theory Spec2Isabelle
  imports Main "HOL-Library.Sublist" "HOL-Library.AList" "HOL-Library.List_Lexorder"
begin

section \<open>Strings\<close>

text \<open>
  A JavaScript string is a sequence of UTF-16 code units. A code unit is modelled by its
  number; no arithmetic is done on code units, so no wrap-around has to be written out.
  \<open>js\<close> turns an ASCII literal into such a sequence.
\<close>

type_synonym jschar = nat
type_synonym jsstring = "jschar list"

definition js :: "string \<Rightarrow> jsstring" where
  "js s = map of_char s"

text \<open>
  The ECMAScript classes used by the pattern and by \<^verbatim>\<open>String.prototype.trim\<close>:
  \<^verbatim>\<open>.\<close> (no flag \<^verbatim>\<open>s\<close>) is every code unit but the four line terminators
  LF, CR, U+2028 and U+2029; \<^verbatim>\<open>\s\<close> and \<^verbatim>\<open>trim\<close> take the white space
  code points (TAB, VT, FF, SP, NBSP, ZWNBSP and the space separators) and the line
  terminators.
\<close>

definition isLineTerminator :: "jschar \<Rightarrow> bool" where
  "isLineTerminator c = (c = 10 \<or> c = 13 \<or> c = 8232 \<or> c = 8233)"

definition isWhiteSpace :: "jschar \<Rightarrow> bool" where
  "isWhiteSpace c =
     (c = 9 \<or> c = 11 \<or> c = 12 \<or> c = 32 \<or> c = 160 \<or> c = 5760 \<or> (8192 \<le> c \<and> c \<le> 8202) \<or>
      c = 8239 \<or> c = 8287 \<or> c = 12288 \<or> c = 65279 \<or> isLineTerminator c)"

definition trim :: "jsstring \<Rightarrow> jsstring" where
  "trim s = rev (dropWhile isWhiteSpace (rev (dropWhile isWhiteSpace s)))"

text \<open>\<^verbatim>\<open>s.startsWith(p)\<close>, \<^verbatim>\<open>s.slice(1)\<close> and \<^verbatim>\<open>s.split(sep)\<close> for a separator of one code unit.\<close>

definition startsWith :: "jsstring \<Rightarrow> jsstring \<Rightarrow> bool" where
  "startsWith s p = (take (length p) s = p)"

definition slice1 :: "jsstring \<Rightarrow> jsstring" where
  "slice1 s = drop 1 s"

fun split :: "jschar \<Rightarrow> jsstring \<Rightarrow> jsstring list" where
  "split sep [] = [[]]"
| "split sep (c # cs) =
     (if c = sep then [] # split sep cs
      else (case split sep cs of
              [] \<Rightarrow> [[c]]
            | l # ls \<Rightarrow> (c # l) # ls))"

text \<open>
  A count in a template literal, \<^verbatim>\<open>`${count}`\<close>: the decimal digits of a natural number
  (array lengths stay far below the range where a number prints with an exponent).
\<close>

fun numberToString :: "nat \<Rightarrow> jsstring" where
  "numberToString n =
     (if n < 10 then [48 + n] else numberToString (n div 10) @ [48 + n mod 10])"

declare numberToString.simps [simp del]

section \<open>types.ts\<close>

text \<open>
  The interface \<^verbatim>\<open>TodoItem\<close>. The field \<^verbatim>\<open>text\<close> is written \<open>text'\<close>.
\<close>

record TodoItem =
  label :: jsstring
  text' :: jsstring
  filePath :: jsstring
  relativePath :: jsstring
  line :: nat
  column :: nat

section \<open>todoScanner.ts\<close>

subsection \<open>The pattern\<close>

text \<open>
  \<^verbatim>\<open>const TODO_PATTERN = /TODO\(([^)]+)\):\s*(.*)/g;\<close>

  \<open>TODO_PATTERN_at ln j\<close> is the match of the pattern that starts at index \<open>j\<close>, if
  there is one: the two captures and the index after the match. The pattern is matched
  by backtracking (\<open>TODO_PATTERN_backtrack\<close> below, proved equal), but at a fixed start
  it has at most one match, found without ever going back:
  \<^item> \<^verbatim>\<open>[^)]+\<close> is greedy and takes the whole run of code units other than
    \<^verbatim>\<open>)\<close>; a shorter run is followed by a code unit that is not \<^verbatim>\<open>)\<close>, so giving
    code units back never lets \<^verbatim>\<open>\)\<close> match. The run must not be empty, and
    \<^verbatim>\<open>):\<close> must follow it.
  \<^item> \<^verbatim>\<open>\s*\<close> takes the whole run of white space and \<^verbatim>\<open>(.*)\<close> the whole run up to
    the next line terminator; \<^verbatim>\<open>(.*)\<close> matches the empty string too, so nothing
    after \<^verbatim>\<open>):\<close> can fail.
\<close>

definition TODO_PATTERN_at :: "jsstring \<Rightarrow> nat \<Rightarrow> (jsstring \<times> jsstring \<times> nat) option" where
  "TODO_PATTERN_at ln j =
     (let s = drop j ln in
      if take 5 s = js ''TODO('' then
        (let rest = drop 5 s;
             g1 = takeWhile (\<lambda>c. c \<noteq> 41) rest;
             after = dropWhile (\<lambda>c. c \<noteq> 41) rest
         in if g1 \<noteq> [] \<and> take 2 after = js ''):'' then
              (let r2 = drop 2 after;
                   ws = takeWhile isWhiteSpace r2;
                   r3 = dropWhile isWhiteSpace r2;
                   g2 = takeWhile (\<lambda>c. \<not> isLineTerminator c) r3
               in Some (g1, g2, j + 5 + length g1 + 2 + length ws + length g2))
            else None)
      else None)"

text \<open>
  The same pattern, matched the way a backtracking matcher does it. A greedy quantifier
  over a class of single code units, \<^verbatim>\<open>C{lo,}\<close>, followed by the rest \<open>k\<close> of the
  pattern: the run of code units of the class at the start of \<open>s\<close> can be cut at every
  length from \<open>lo\<close> on; the matcher tries the longest cut first and gives the first
  success of \<open>k\<close>, which gets what was taken and what is left.
\<close>

fun firstSome :: "('a \<Rightarrow> 'b option) \<Rightarrow> 'a list \<Rightarrow> 'b option" where
  "firstSome f [] = None"
| "firstSome f (x # xs) = (case f x of Some y \<Rightarrow> Some y | None \<Rightarrow> firstSome f xs)"

definition greedy ::
  "(jschar \<Rightarrow> bool) \<Rightarrow> nat \<Rightarrow> jsstring \<Rightarrow> (jsstring \<Rightarrow> jsstring \<Rightarrow> 'a option) \<Rightarrow> 'a option" where
  "greedy C lo s k =
     firstSome (\<lambda>n. k (take n s) (drop n s)) (rev [lo ..< Suc (length (takeWhile C s))])"

definition TODO_PATTERN_backtrack :: "jsstring \<Rightarrow> nat \<Rightarrow> (jsstring \<times> jsstring \<times> nat) option" where
  "TODO_PATTERN_backtrack ln j =
     (let s = drop j ln in
      if take 5 s = js ''TODO('' then
        greedy (\<lambda>c. c \<noteq> 41) 1 (drop 5 s)
          (\<lambda>g1 r1.
             if take 2 r1 = js ''):'' then
               greedy isWhiteSpace 0 (drop 2 r1)
                 (\<lambda>ws r2.
                    greedy (\<lambda>c. \<not> isLineTerminator c) 0 r2
                      (\<lambda>g2 r3. Some (g1, g2, j + 5 + length g1 + 2 + length ws + length g2)))
             else None)
      else None)"

text \<open>
  \<^verbatim>\<open>TODO_PATTERN.exec(line)\<close> with \<^verbatim>\<open>lastIndex = i\<close>, for the global pattern: the
  first index from \<open>i\<close> on at which the pattern matches, with the captures and the new
  \<^verbatim>\<open>lastIndex\<close>; \<^verbatim>\<open>null\<close> (here \<open>None\<close>) when there is none up to the end of the line.
\<close>

function TODO_PATTERN_exec :: "jsstring \<Rightarrow> nat \<Rightarrow> (nat \<times> jsstring \<times> jsstring \<times> nat) option" where
  "TODO_PATTERN_exec ln i =
     (if length ln < i then None
      else (case TODO_PATTERN_at ln i of
              Some (g1, g2, e) \<Rightarrow> Some (i, g1, g2, e)
            | None \<Rightarrow> TODO_PATTERN_exec ln (Suc i)))"
  by pat_completeness auto
termination
  by (relation "measure (\<lambda>(ln, i). Suc (length ln) - i)") auto

declare TODO_PATTERN_exec.simps [simp del]

lemma length_js [simp]: "length (js s) = length s"
  by (simp add: js_def)

lemma if_if_conj: "(if a then (if b then x else y) else y) = (if a \<and> b then x else y)"
  by simp

lemma TODO_PATTERN_at_unfold:
  "TODO_PATTERN_at ln j =
     (if take 5 (drop j ln) = js ''TODO('' \<and>
         takeWhile (\<lambda>c. c \<noteq> 41) (drop 5 (drop j ln)) \<noteq> [] \<and>
         take 2 (dropWhile (\<lambda>c. c \<noteq> 41) (drop 5 (drop j ln))) = js ''):''
      then Some (takeWhile (\<lambda>c. c \<noteq> 41) (drop 5 (drop j ln)),
                 takeWhile (\<lambda>c. \<not> isLineTerminator c)
                   (dropWhile isWhiteSpace (drop 2 (dropWhile (\<lambda>c. c \<noteq> 41) (drop 5 (drop j ln))))),
                 j + 5 + length (takeWhile (\<lambda>c. c \<noteq> 41) (drop 5 (drop j ln))) + 2 +
                 length (takeWhile isWhiteSpace (drop 2 (dropWhile (\<lambda>c. c \<noteq> 41) (drop 5 (drop j ln))))) +
                 length (takeWhile (\<lambda>c. \<not> isLineTerminator c)
                   (dropWhile isWhiteSpace (drop 2 (dropWhile (\<lambda>c. c \<noteq> 41) (drop 5 (drop j ln)))))))
      else None)"
  unfolding TODO_PATTERN_at_def Let_def by (rule if_if_conj)

lemma TODO_PATTERN_at_SomeD:
  assumes "TODO_PATTERN_at ln j = Some (g1, g2, e)"
  shows "\<exists>ws rest. drop j ln = js ''TODO('' @ g1 @ js ''):'' @ ws @ g2 @ rest \<and>
           g1 \<noteq> [] \<and> 41 \<notin> set g1 \<and> list_all isWhiteSpace ws \<and>
           list_all (\<lambda>c. \<not> isLineTerminator c) g2 \<and>
           (g2 @ rest = [] \<or> \<not> isWhiteSpace (hd (g2 @ rest))) \<and>
           (rest = [] \<or> isLineTerminator (hd rest)) \<and>
           e = j + 7 + length g1 + length ws + length g2"
proof -
  define s where "s = drop j ln"
  define rest where "rest = drop 5 s"
  define after where "after = dropWhile (\<lambda>c. c \<noteq> 41) rest"
  define r2 where "r2 = drop 2 after"
  define ws where "ws = takeWhile isWhiteSpace r2"
  define r3 where "r3 = dropWhile isWhiteSpace r2"
  define r4 where "r4 = dropWhile (\<lambda>c. \<not> isLineTerminator c) r3"
  note unf = TODO_PATTERN_at_unfold [of ln j, folded s_def, folded rest_def, folded after_def,
      folded r2_def, folded ws_def r3_def]
  have c: "take 5 s = js ''TODO('' \<and> takeWhile (\<lambda>c. c \<noteq> 41) rest \<noteq> [] \<and> take 2 after = js ''):''"
    using assms unfolding unf by (simp split: if_split_asm)
  then have h5: "take 5 s = js ''TODO(''" and ne: "takeWhile (\<lambda>c. c \<noteq> 41) rest \<noteq> []"
    and h2: "take 2 after = js ''):''" by blast+
  from assms c have g1: "g1 = takeWhile (\<lambda>c. c \<noteq> 41) rest"
    and g2: "g2 = takeWhile (\<lambda>c. \<not> isLineTerminator c) r3"
    and e: "e = j + 5 + length g1 + 2 + length ws + length g2"
    unfolding unf by auto
  have "s = take 5 s @ rest" by (simp add: rest_def)
  then have s: "s = js ''TODO('' @ rest" by (simp only: h5)
  have rest: "rest = g1 @ after" by (simp add: g1 after_def)
  have "after = take 2 after @ r2" by (simp add: r2_def)
  then have after: "after = js ''):'' @ r2" by (simp only: h2)
  have r2: "r2 = ws @ r3" by (simp add: ws_def r3_def)
  have r3: "r3 = g2 @ r4" by (simp add: g2 r4_def)
  have d: "drop j ln = js ''TODO('' @ g1 @ js ''):'' @ ws @ g2 @ r4"
    using s rest after r2 r3 by (simp add: s_def)
  have p1: "41 \<notin> set g1" unfolding g1 by (auto dest: set_takeWhileD)
  have p2: "list_all isWhiteSpace ws" unfolding ws_def by (auto simp: list_all_iff dest: set_takeWhileD)
  have p3: "list_all (\<lambda>c. \<not> isLineTerminator c) g2"
    unfolding g2 by (auto simp: list_all_iff dest: set_takeWhileD)
  have p4: "g2 @ r4 = [] \<or> \<not> isWhiteSpace (hd (g2 @ r4))"
    using hd_dropWhile [of isWhiteSpace r2] unfolding r3 [symmetric] r3_def by blast
  have p5: "r4 = [] \<or> isLineTerminator (hd r4)"
    using hd_dropWhile [of "\<lambda>c. \<not> isLineTerminator c" r3] unfolding r4_def by blast
  from d ne p1 p2 p3 p4 p5 e show ?thesis unfolding g1 [symmetric] by auto
qed

lemma TODO_PATTERN_at_bounds:
  assumes "TODO_PATTERN_at ln j = Some (g1, g2, e)"
  shows "j + 8 \<le> e" and "e \<le> length ln"
proof -
  from TODO_PATTERN_at_SomeD [OF assms] obtain ws rest
    where d: "drop j ln = js ''TODO('' @ g1 @ js ''):'' @ ws @ g2 @ rest"
      and ne: "g1 \<noteq> []" and e: "e = j + 7 + length g1 + length ws + length g2"
    by blast
  from ne have "1 \<le> length g1" by (cases g1) simp_all
  with e show "j + 8 \<le> e" by simp
  have "length (drop j ln) = 7 + length g1 + length ws + length g2 + length rest"
    unfolding d by simp
  with e show "e \<le> length ln" by simp
qed

lemma TODO_PATTERN_at_intro:
  assumes d: "drop j ln = js ''TODO('' @ g1 @ js ''):'' @ r2"
    and ne: "g1 \<noteq> []" and p1: "41 \<notin> set g1"
  shows "TODO_PATTERN_at ln j =
           Some (g1, takeWhile (\<lambda>c. \<not> isLineTerminator c) (dropWhile isWhiteSpace r2),
                 j + 7 + length g1 + length (takeWhile isWhiteSpace r2) +
                 length (takeWhile (\<lambda>c. \<not> isLineTerminator c) (dropWhile isWhiteSpace r2)))"
proof -
  have t5: "take 5 (drop j ln) = js ''TODO(''" unfolding d by simp
  have d5: "drop 5 (drop j ln) = g1 @ js ''):'' @ r2" unfolding d by simp
  have hd41: "js ''):'' @ r2 = 41 # 58 # r2" by (simp add: js_def)
  have n41: "\<And>x. x \<in> set g1 \<Longrightarrow> x \<noteq> 41" using p1 by blast
  have tw: "takeWhile (\<lambda>c. c \<noteq> 41) (drop 5 (drop j ln)) = g1"
    unfolding d5 hd41 by (simp add: n41)
  have dw: "dropWhile (\<lambda>c. c \<noteq> 41) (drop 5 (drop j ln)) = js ''):'' @ r2"
    unfolding d5 hd41 by (simp add: n41)
  have t2: "take 2 (js ''):'' @ r2) = js ''):''" by simp
  have d2: "drop 2 (js ''):'' @ r2) = r2" by simp
  show ?thesis
    unfolding TODO_PATTERN_at_unfold tw dw t2 d2 using ne t5 by simp
qed

lemma firstSome_all_None: "(\<And>x. x \<in> set xs \<Longrightarrow> f x = None) \<Longrightarrow> firstSome f xs = None"
  by (induction xs) simp_all

lemma greedy_longest:
  assumes "k (takeWhile C s) (dropWhile C s) = Some v" and "lo \<le> length (takeWhile C s)"
  shows "greedy C lo s k = Some v"
proof -
  let ?n = "length (takeWhile C s)"
  have "[lo ..< Suc ?n] = [lo ..< ?n] @ [?n]" using assms(2) by simp
  then have "rev [lo ..< Suc ?n] = ?n # rev [lo ..< ?n]" by simp
  moreover have "take ?n s = takeWhile C s" by (simp add: takeWhile_eq_take [symmetric])
  moreover have "drop ?n s = dropWhile C s" by (simp add: dropWhile_eq_drop [symmetric])
  ultimately show ?thesis using assms(1) by (simp add: greedy_def)
qed

lemma greedy_total:
  assumes "\<And>g r. \<exists>v. k g r = Some v"
  shows "greedy C 0 s k = k (takeWhile C s) (dropWhile C s)"
proof -
  from assms obtain v where "k (takeWhile C s) (dropWhile C s) = Some v" by blast
  then show ?thesis by (simp add: greedy_longest)
qed

lemma greedy_None:
  assumes "\<And>n. lo \<le> n \<Longrightarrow> n \<le> length (takeWhile C s) \<Longrightarrow> k (take n s) (drop n s) = None"
  shows "greedy C lo s k = None"
  unfolding greedy_def by (rule firstSome_all_None) (use assms in auto)

text \<open>
  At a fixed start the backtracking never pays: \<open>TODO_PATTERN_at\<close>, which takes the
  longest run each time, gives the same match.
\<close>

lemma TODO_PATTERN_at_backtrack: "TODO_PATTERN_at ln j = TODO_PATTERN_backtrack ln j"
proof (cases "take 5 (drop j ln) = js ''TODO(''")
  case False
  then show ?thesis by (simp add: TODO_PATTERN_at_def TODO_PATTERN_backtrack_def)
next
  case True
  define rest where "rest = drop 5 (drop j ln)"
  define g1 where "g1 = takeWhile (\<lambda>c. c \<noteq> 41) rest"
  define after where "after = dropWhile (\<lambda>c. c \<noteq> 41) rest"
  define k2 :: "jsstring \<Rightarrow> jsstring \<Rightarrow> jsstring \<Rightarrow> jsstring \<Rightarrow> (jsstring \<times> jsstring \<times> nat) option"
    where "k2 = (\<lambda>g1 ws g2 r3. Some (g1, g2, j + 5 + length g1 + 2 + length ws + length g2))"
  define k1 where "k1 = (\<lambda>g1. (\<lambda>ws r2. greedy (\<lambda>c. \<not> isLineTerminator c) 0 r2 (k2 g1 ws)))"
  define k0 where "k0 = (\<lambda>g1 r1. if take 2 r1 = js ''):'' then greedy isWhiteSpace 0 (drop 2 r1) (k1 g1) else None)"
  have bt: "TODO_PATTERN_backtrack ln j = greedy (\<lambda>c. c \<noteq> 41) 1 rest k0"
    unfolding TODO_PATTERN_backtrack_def Let_def rest_def k0_def k1_def k2_def
    using True by simp
  have in2: "greedy (\<lambda>c. \<not> isLineTerminator c) 0 r (k2 g w) =
      Some (g, takeWhile (\<lambda>c. \<not> isLineTerminator c) r,
            j + 5 + length g + 2 + length w + length (takeWhile (\<lambda>c. \<not> isLineTerminator c) r))"
    for r g w
    by (subst greedy_total) (simp_all add: k2_def)
  have in1: "greedy isWhiteSpace 0 r (k1 g) =
      Some (g, takeWhile (\<lambda>c. \<not> isLineTerminator c) (dropWhile isWhiteSpace r),
            j + 5 + length g + 2 + length (takeWhile isWhiteSpace r) +
            length (takeWhile (\<lambda>c. \<not> isLineTerminator c) (dropWhile isWhiteSpace r)))"
    for r g
    by (subst greedy_total) (simp_all add: k1_def in2)
  have at: "TODO_PATTERN_at ln j = (if g1 \<noteq> [] \<and> take 2 after = js ''):'' then k0 g1 after else None)"
    unfolding TODO_PATTERN_at_unfold rest_def [symmetric]
    unfolding g1_def [symmetric] after_def [symmetric]
    using True by (simp add: k0_def in1)
  show ?thesis
  proof (cases "g1 \<noteq> [] \<and> take 2 after = js ''):''")
    case True
    then have "1 \<le> length (takeWhile (\<lambda>c. c \<noteq> 41) rest)"
      unfolding g1_def by (cases "takeWhile (\<lambda>c. c \<noteq> 41) rest") simp_all
    moreover from True obtain v where "k0 g1 after = Some v" by (auto simp: k0_def in1)
    ultimately have "greedy (\<lambda>c. c \<noteq> 41) 1 rest k0 = k0 g1 after"
      using greedy_longest [of k0 "\<lambda>c. c \<noteq> 41" rest v 1] by (simp add: g1_def after_def)
    with True show ?thesis by (simp add: at bt)
  next
    case False
    have "k0 (take n rest) (drop n rest) = None"
      if lo: "1 \<le> n" and hi: "n \<le> length (takeWhile (\<lambda>c. c \<noteq> 41) rest)" for n
    proof (cases "n = length (takeWhile (\<lambda>c. c \<noteq> 41) rest)")
      case True
      then have "take n rest = g1" "drop n rest = after"
        by (simp_all add: g1_def after_def takeWhile_eq_take [symmetric] dropWhile_eq_drop [symmetric])
      moreover from lo True have "g1 \<noteq> []" by (auto simp: g1_def)
      ultimately show ?thesis using False by (simp add: k0_def)
    next
      case False
      with hi have lt: "n < length (takeWhile (\<lambda>c. c \<noteq> 41) rest)" by simp
      then have nl: "n < length rest" using length_takeWhile_le [of "\<lambda>c. c \<noteq> 41" rest] by simp
      from lt have "rest ! n \<in> set (takeWhile (\<lambda>c. c \<noteq> 41) rest)"
        by (metis nth_mem takeWhile_nth)
      then have "rest ! n \<noteq> 41" by (auto dest: set_takeWhileD)
      moreover have "drop n rest = rest ! n # drop (Suc n) rest"
        using nl by (simp add: Cons_nth_drop_Suc)
      ultimately have "take 2 (drop n rest) \<noteq> js ''):''" by (simp add: js_def)
      then show ?thesis by (simp add: k0_def)
    qed
    then have "greedy (\<lambda>c. c \<noteq> 41) 1 rest k0 = None" by (rule greedy_None)
    with False show ?thesis by (auto simp: at bt)
  qed
qed

lemma TODO_PATTERN_exec_Some:
  "TODO_PATTERN_exec ln i = Some (idx, g1, g2, e) \<Longrightarrow>
     i \<le> idx \<and> TODO_PATTERN_at ln idx = Some (g1, g2, e) \<and>
     (\<forall>j. i \<le> j \<longrightarrow> j < idx \<longrightarrow> TODO_PATTERN_at ln j = None)"
proof (induction ln i rule: TODO_PATTERN_exec.induct)
  case (1 ln i)
  show ?case
  proof (cases "TODO_PATTERN_at ln i")
    case None
    with "1.prems" have le: "\<not> length ln < i"
      and rec: "TODO_PATTERN_exec ln (Suc i) = Some (idx, g1, g2, e)"
      by (auto simp: TODO_PATTERN_exec.simps [of ln i] split: if_splits)
    from "1.IH" [OF le None rec] have a: "Suc i \<le> idx"
      and b: "TODO_PATTERN_at ln idx = Some (g1, g2, e)"
      and c: "\<And>j. Suc i \<le> j \<Longrightarrow> j < idx \<Longrightarrow> TODO_PATTERN_at ln j = None"
      by blast+
    have "TODO_PATTERN_at ln j = None" if "i \<le> j" "j < idx" for j
    proof (cases "j = i")
      case True
      with None show ?thesis by simp
    next
      case False
      with that have "Suc i \<le> j" by simp
      then show ?thesis using that(2) by (rule c)
    qed
    with a b show ?thesis by simp
  next
    case (Some m)
    with "1.prems" show ?thesis
      by (auto simp: TODO_PATTERN_exec.simps [of ln i] split: if_splits prod.splits)
  qed
qed

lemma TODO_PATTERN_exec_None:
  "TODO_PATTERN_exec ln i = None \<Longrightarrow> i \<le> j \<Longrightarrow> TODO_PATTERN_at ln j = None"
proof (induction ln i rule: TODO_PATTERN_exec.induct)
  case (1 ln i)
  show ?case
  proof (cases "length ln < i")
    case True
    with "1.prems" have "length ln < j" by simp
    then show ?thesis by (simp add: TODO_PATTERN_at_def js_def)
  next
    case False
    with "1.prems" have none: "TODO_PATTERN_at ln i = None"
      and rec: "TODO_PATTERN_exec ln (Suc i) = None"
      by (auto simp: TODO_PATTERN_exec.simps [of ln i] split: option.splits)
    show ?thesis
    proof (cases "j = i")
      case True
      with none show ?thesis by simp
    next
      case False
      with "1.prems" have "Suc i \<le> j" by simp
      from "1.IH" [OF \<open>\<not> length ln < i\<close> none rec this] show ?thesis .
    qed
  qed
qed

subsection \<open>The scan of one line\<close>

text \<open>
  The inner loop of \<^verbatim>\<open>scanFile\<close>:
  \<^verbatim>\<open>
  TODO_PATTERN.lastIndex = 0;
  while ((match = TODO_PATTERN.exec(line)) !== null) {
      const label = match[1].trim();
      const todoText = match[2].trim();
      todos.push({ label, text: todoText, filePath: uri.fsPath, relativePath,
                   line: lineIndex, column: match.index });
  }
  \<close>
  \<open>lineMatches ln i\<close> is the sequence of results of \<^verbatim>\<open>exec\<close> from \<^verbatim>\<open>lastIndex = i\<close>
  on; \<open>matcher\<close> gives the triple (label, text, column) of each, and \<open>scanLine\<close> the
  record the loop body pushes for each.
\<close>

function lineMatches :: "jsstring \<Rightarrow> nat \<Rightarrow> (nat \<times> jsstring \<times> jsstring) list" where
  "lineMatches ln i =
     (case TODO_PATTERN_exec ln i of
        None \<Rightarrow> []
      | Some (idx, g1, g2, e) \<Rightarrow> (idx, g1, g2) # lineMatches ln e)"
  by pat_completeness auto
termination
proof (relation "measure (\<lambda>(ln, i). Suc (length ln) - i)", goal_cases)
  case 1
  show ?case by simp
next
  case (2 ln i m idx r g1 r' g2 e)
  then have ex: "TODO_PATTERN_exec ln i = Some (idx, g1, g2, e)" by simp
  from TODO_PATTERN_exec_Some [OF ex]
  have "i \<le> idx" and at: "TODO_PATTERN_at ln idx = Some (g1, g2, e)" by auto
  with TODO_PATTERN_at_bounds [OF at] show ?case by simp
qed

declare lineMatches.simps [simp del]

definition matcher :: "jsstring \<Rightarrow> (jsstring \<times> jsstring \<times> nat) list" where
  "matcher ln = map (\<lambda>(idx, g1, g2). (trim g1, trim g2, idx)) (lineMatches ln 0)"

definition scanLine :: "jsstring \<Rightarrow> jsstring \<Rightarrow> nat \<Rightarrow> jsstring \<Rightarrow> TodoItem list" where
  "scanLine fsPath relPath lineIndex ln =
     map (\<lambda>(lbl, todoText, col).
            \<lparr>label = lbl, text' = todoText, filePath = fsPath, relativePath = relPath,
             line = lineIndex, column = col\<rparr>)
         (matcher ln)"

text \<open>
  \<^verbatim>\<open>scanFile(uri)\<close>: the text of the document is split at LF and every line is scanned
  with its index. \<open>content\<close> is what \<^verbatim>\<open>openTextDocument\<close> and \<^verbatim>\<open>getText\<close> give,
  \<open>None\<close> when they throw: the \<^verbatim>\<open>catch\<close> then leaves the list empty. \<open>fsPath\<close> is
  \<^verbatim>\<open>uri.fsPath\<close> and \<open>relPath\<close> the path the workspace gives for the file.
\<close>

definition scanFile :: "jsstring \<Rightarrow> jsstring \<Rightarrow> jsstring option \<Rightarrow> TodoItem list" where
  "scanFile fsPath relPath content =
     (case content of
        None \<Rightarrow> []
      | Some txt \<Rightarrow>
          concat (map (\<lambda>(lineIndex, ln). scanLine fsPath relPath lineIndex ln)
                      (enumerate 0 (split 10 txt))))"

section \<open>utils\<close>

text \<open>
  \<^verbatim>\<open>fuzzyMatch(str, pattern)\<close>. \<open>fuzzyLoop\<close> is its \<^verbatim>\<open>while\<close> loop and gives the
  value of \<^verbatim>\<open>patternIndex\<close> when the loop ends. \<^verbatim>\<open>String.prototype.toLowerCase\<close> is
  Unicode case conversion (it may change the length of a string); the functions that call
  it take it as the parameter \<open>toLowerCase\<close>, so that what is proved holds for whatever
  it computes.
\<close>

function fuzzyLoop :: "jsstring \<Rightarrow> jsstring \<Rightarrow> nat \<Rightarrow> nat \<Rightarrow> nat" where
  "fuzzyLoop str pattern strIndex patternIndex =
     (if strIndex < length str \<and> patternIndex < length pattern then
        fuzzyLoop str pattern (Suc strIndex)
          (if str ! strIndex = pattern ! patternIndex then Suc patternIndex else patternIndex)
      else patternIndex)"
  by pat_completeness auto
termination
  by (relation "measure (\<lambda>(str, pattern, strIndex, patternIndex). length str - strIndex)") auto

declare fuzzyLoop.simps [simp del]

definition fuzzyMatch :: "(jsstring \<Rightarrow> jsstring) \<Rightarrow> jsstring \<Rightarrow> jsstring \<Rightarrow> bool" where
  "fuzzyMatch toLowerCase str0 pattern0 =
     (let str = toLowerCase str0;
          pattern = toLowerCase pattern0
      in fuzzyLoop str pattern 0 0 = length pattern)"

definition createSearchableString :: "jsstring \<Rightarrow> jsstring \<Rightarrow> jsstring \<Rightarrow> jsstring" where
  "createSearchableString relPath lbl txt = relPath @ js '' TODO('' @ lbl @ js ''): '' @ txt"

text \<open>
  The lower-casing of ASCII, the part of \<^verbatim>\<open>toLowerCase\<close> that the examples need.
\<close>

definition asciiLower :: "jsstring \<Rightarrow> jsstring" where
  "asciiLower s = map (\<lambda>c. if 65 \<le> c \<and> c \<le> 90 then c + 32 else c) s"

section \<open>todoTreeItem.ts\<close>

text \<open>
  The constructor arguments of \<^verbatim>\<open>TodoTreeItem\<close>, which are its public fields; the
  display label \<^verbatim>\<open>label\<close> is written \<open>label'\<close>. What the constructor derives from them
  for the host (tooltip, description, icon, command) is never read by the provider.
\<close>

datatype NodeType = NodeLabel | NodeFile | NodeTodo

datatype TreeItemCollapsibleState = None' | Collapsed | Expanded

record TodoTreeItem =
  label' :: jsstring
  collapsibleState :: TreeItemCollapsibleState
  nodeType :: NodeType
  todoItem :: "TodoItem option"
  todoLabel :: "jsstring option"
  fileName :: "jsstring option"

section \<open>todoTreeProvider.ts\<close>

subsection \<open>Arrays, maps and errors\<close>

text \<open>
  \<^verbatim>\<open>Array.prototype.sort(compareFn)\<close> is a stable sort; with a consistent comparator the
  result is the one stable arrangement in which \<open>a\<close> stands before \<open>b\<close> whenever
  \<^verbatim>\<open>compareFn(a, b) < 0\<close>, which the stable insertion sort \<open>arraySort\<close> computes.
  \<^verbatim>\<open>String.prototype.localeCompare\<close> depends on the locale of the host; the functions
  that sort take it as the parameter \<open>localeCompare\<close>.
\<close>

text \<open>
  A consistent comparator for the examples: the lexicographic order of the code units.
\<close>

definition codeUnitCompare :: "jsstring \<Rightarrow> jsstring \<Rightarrow> int" where
  "codeUnitCompare a b = (if a < b then - 1 else if b < a then 1 else 0)"

fun insertSorted :: "('a \<Rightarrow> 'a \<Rightarrow> int) \<Rightarrow> 'a \<Rightarrow> 'a list \<Rightarrow> 'a list" where
  "insertSorted compareFn x [] = [x]"
| "insertSorted compareFn x (y # ys) =
     (if compareFn x y \<le> 0 then x # y # ys else y # insertSorted compareFn x ys)"

definition arraySort :: "('a \<Rightarrow> 'a \<Rightarrow> int) \<Rightarrow> 'a list \<Rightarrow> 'a list" where
  "arraySort compareFn xs = foldr (insertSorted compareFn) xs []"

text \<open>\<^verbatim>\<open>Array.prototype.indexOf\<close>: the first index of the element, or \<open>-1\<close>.\<close>

fun indexOf :: "'a list \<Rightarrow> 'a \<Rightarrow> int" where
  "indexOf [] x = - 1"
| "indexOf (y # ys) x =
     (if y = x then 0 else (let i = indexOf ys x in if i < 0 then - 1 else i + 1))"

text \<open>
  A \<^verbatim>\<open>Map\<close> keeps its keys in the order of their first insertion: an association
  list, read by \<open>map_of\<close> (\<^verbatim>\<open>get\<close>) and written by \<open>AList.update\<close> (\<^verbatim>\<open>set\<close>: in
  place for a key that is present, at the end for a new one). \<open>groupInto key\<close> is the
  body of the grouping loops:
  \<^verbatim>\<open>
  const existing = map.get(key(todo)) || [];
  existing.push(todo);
  map.set(key(todo), existing);
  \<close>
\<close>

definition groupInto ::
  "(TodoItem \<Rightarrow> jsstring) \<Rightarrow> TodoItem \<Rightarrow> (jsstring \<times> TodoItem list) list \<Rightarrow> (jsstring \<times> TodoItem list) list" where
  "groupInto key todo m =
     (let existing = (case map_of m (key todo) of None \<Rightarrow> [] | Some ts \<Rightarrow> ts)
      in AList.update (key todo) (existing @ [todo]) m)"

text \<open>
  \<^verbatim>\<open>map.get(k)!.length\<close> throws a TypeError when the key is absent; \<open>mapE\<close> maps a
  function that may throw over an array and stops at the first error.
\<close>

datatype error = TypeError

fun mapE :: "('a \<Rightarrow> error + 'b) \<Rightarrow> 'a list \<Rightarrow> error + 'b list" where
  "mapE f [] = Inr []"
| "mapE f (x # xs) =
     (case f x of
        Inl e \<Rightarrow> Inl e
      | Inr y \<Rightarrow> (case mapE f xs of Inl e \<Rightarrow> Inl e | Inr ys \<Rightarrow> Inr (y # ys)))"

text \<open>A string is truthy when it is defined and not empty.\<close>

definition truthy :: "jsstring option \<Rightarrow> bool" where
  "truthy s = (case s of None \<Rightarrow> False | Some v \<Rightarrow> v \<noteq> [])"

subsection \<open>The provider\<close>

datatype ViewMode = grouped | byTag | flat

definition VIEW_MODE_LABELS :: "ViewMode \<Rightarrow> jsstring" where
  "VIEW_MODE_LABELS m =
     (case m of
        grouped \<Rightarrow> js ''Grouped by Tag & File''
      | byTag \<Rightarrow> js ''Grouped by Tag''
      | flat \<Rightarrow> js ''Flat'')"

record TodoTreeProvider =
  todos :: "TodoItem list"
  viewMode :: ViewMode
  filterPattern :: jsstring

definition setTodos :: "TodoItem list \<Rightarrow> TodoTreeProvider \<Rightarrow> TodoTreeProvider" where
  "setTodos ts p = p\<lparr>todos := ts\<rparr>"

definition getTodos :: "TodoTreeProvider \<Rightarrow> TodoItem list" where
  "getTodos p = todos p"

definition toggleViewMode :: "TodoTreeProvider \<Rightarrow> jsstring \<times> TodoTreeProvider" where
  "toggleViewMode p =
     (let modes = [grouped, byTag, flat];
          currentIndex = indexOf modes (viewMode p);
          p' = p\<lparr>viewMode := modes ! nat ((currentIndex + 1) mod int (length modes))\<rparr>
      in (VIEW_MODE_LABELS (viewMode p'), p'))"

definition setFilter :: "jsstring \<Rightarrow> TodoTreeProvider \<Rightarrow> TodoTreeProvider" where
  "setFilter pattern p = p\<lparr>filterPattern := pattern\<rparr>"

definition getFilter :: "TodoTreeProvider \<Rightarrow> jsstring" where
  "getFilter p = filterPattern p"

definition getFilteredTodos :: "(jsstring \<Rightarrow> jsstring) \<Rightarrow> TodoTreeProvider \<Rightarrow> TodoItem list" where
  "getFilteredTodos toLowerCase p =
     (if filterPattern p = [] then todos p
      else if startsWith (filterPattern p) (js ''@'') then
        (let labelFilter = slice1 (filterPattern p)
         in filter (\<lambda>todo. label todo = labelFilter) (todos p))
      else
        filter (\<lambda>todo.
                  (let searchable = createSearchableString (relativePath todo) (label todo) (text' todo)
                   in fuzzyMatch toLowerCase searchable (filterPattern p)))
               (todos p))"

definition getFlatItems :: "(jsstring \<Rightarrow> jsstring \<Rightarrow> int) \<Rightarrow> TodoItem list \<Rightarrow> TodoTreeItem list" where
  "getFlatItems localeCompare ts =
     map (\<lambda>todo.
            (let displayText = js ''TODO('' @ label todo @ js ''): '' @ text' todo
             in \<lparr>label' = displayText, collapsibleState = None', nodeType = NodeTodo,
                 todoItem = Some todo, todoLabel = None, fileName = None\<rparr>))
         (arraySort (\<lambda>a b.
                       (let aText = js ''TODO('' @ label a @ js ''): '' @ text' a;
                            bText = js ''TODO('' @ label b @ js ''): '' @ text' b
                        in localeCompare aText bText))
                    ts)"

definition getLabelGroups ::
  "(jsstring \<Rightarrow> jsstring \<Rightarrow> int) \<Rightarrow> TodoItem list \<Rightarrow> error + TodoTreeItem list" where
  "getLabelGroups localeCompare ts =
     (let labelMap = fold (groupInto label) ts [];
          sortedLabels = arraySort localeCompare (map fst labelMap)
      in mapE (\<lambda>lbl.
                 (case map_of labelMap lbl of
                    None \<Rightarrow> Inl TypeError
                  | Some g \<Rightarrow>
                      (let count = length g
                       in Inr \<lparr>label' = lbl @ js '' ('' @ numberToString count @ js '')'',
                               collapsibleState = Expanded, nodeType = NodeLabel,
                               todoItem = None, todoLabel = Some lbl, fileName = None\<rparr>)))
              sortedLabels)"

definition getFileGroups ::
  "(jsstring \<Rightarrow> jsstring \<Rightarrow> int) \<Rightarrow> TodoItem list \<Rightarrow> jsstring \<Rightarrow> error + TodoTreeItem list" where
  "getFileGroups localeCompare ts lbl =
     (let labelTodos = filter (\<lambda>t. label t = lbl) ts;
          fileMap = fold (groupInto relativePath) labelTodos [];
          sortedFiles = arraySort localeCompare (map fst fileMap)
      in mapE (\<lambda>fname.
                 (case map_of fileMap fname of
                    None \<Rightarrow> Inl TypeError
                  | Some g \<Rightarrow>
                      (let count = length g
                       in Inr \<lparr>label' = fname @ js '' ('' @ numberToString count @ js '')'',
                               collapsibleState = Expanded, nodeType = NodeFile,
                               todoItem = None, todoLabel = Some lbl, fileName = Some fname\<rparr>)))
              sortedFiles)"

definition getTodosForFile ::
  "(jsstring \<Rightarrow> jsstring \<Rightarrow> int) \<Rightarrow> TodoItem list \<Rightarrow> jsstring \<Rightarrow> jsstring \<Rightarrow> TodoTreeItem list" where
  "getTodosForFile localeCompare ts lbl fname =
     map (\<lambda>todo.
            \<lparr>label' = (if text' todo \<noteq> [] then text' todo else js ''(empty)''),
             collapsibleState = None', nodeType = NodeTodo,
             todoItem = Some todo, todoLabel = Some lbl, fileName = Some fname\<rparr>)
         (arraySort (\<lambda>a b. localeCompare (text' a) (text' b))
                    (filter (\<lambda>t. label t = lbl \<and> relativePath t = fname) ts))"

definition getTodosForLabel ::
  "(jsstring \<Rightarrow> jsstring \<Rightarrow> int) \<Rightarrow> TodoItem list \<Rightarrow> jsstring \<Rightarrow> TodoTreeItem list" where
  "getTodosForLabel localeCompare ts lbl =
     map (\<lambda>todo.
            \<lparr>label' = (if text' todo \<noteq> [] then text' todo else js ''(empty)''),
             collapsibleState = None', nodeType = NodeTodo,
             todoItem = Some todo, todoLabel = Some lbl, fileName = None\<rparr>)
         (arraySort (\<lambda>a b. localeCompare (text' a) (text' b))
                    (filter (\<lambda>t. label t = lbl) ts))"

text \<open>
  \<^verbatim>\<open>getChildren(element?)\<close>; \<open>None\<close> is the root. Under the guards
  \<^verbatim>\<open>element.todoLabel\<close> and \<^verbatim>\<open>element.fileName\<close> both strings are defined.
\<close>

definition getChildren ::
  "(jsstring \<Rightarrow> jsstring) \<Rightarrow> (jsstring \<Rightarrow> jsstring \<Rightarrow> int) \<Rightarrow> TodoTreeProvider \<Rightarrow>
   TodoTreeItem option \<Rightarrow> error + TodoTreeItem list" where
  "getChildren toLowerCase localeCompare p element =
     (let filteredTodos = getFilteredTodos toLowerCase p
      in case element of
           None \<Rightarrow>
             (if viewMode p = flat then Inr (getFlatItems localeCompare filteredTodos)
              else getLabelGroups localeCompare filteredTodos)
         | Some el \<Rightarrow>
             (if nodeType el = NodeLabel \<and> truthy (todoLabel el) then
                (if viewMode p = byTag then
                   Inr (getTodosForLabel localeCompare filteredTodos (the (todoLabel el)))
                 else getFileGroups localeCompare filteredTodos (the (todoLabel el)))
              else if nodeType el = NodeFile \<and> truthy (todoLabel el) \<and> truthy (fileName el) then
                Inr (getTodosForFile localeCompare filteredTodos (the (todoLabel el))
                       (the (fileName el)))
              else Inr []))"

section \<open>extension.ts\<close>

text \<open>
  Modelled from the spec: \<^verbatim>\<open>TodoTreeProvider.setTodosForFile(filePath, todos)\<close>, which
  \<^verbatim>\<open>scanDocument\<close> and the deletion watcher call; the class as given does not have
  the method. The spec (4.3, \<^verbatim>\<open>scanOne\<close>): "replace exactly that file's records in the index
  (match by absolute path equality), leaving all other files' records untouched. If the
  file no longer exists or yields no matches, its prior records are removed (replaced
  with empty)". The records of the file are taken out and the new ones are put after the
  records that stay.
\<close>

definition setTodosForFile :: "jsstring \<Rightarrow> TodoItem list \<Rightarrow> TodoTreeProvider \<Rightarrow> TodoTreeProvider" where
  "setTodosForFile fsPath newTodos p =
     p\<lparr>todos := filter (\<lambda>t. filePath t \<noteq> fsPath) (todos p) @ newTodos\<rparr>"

text \<open>
  Modelled from the spec: \<^verbatim>\<open>TodoScanner.scanDocument(document)\<close>, which the scanner as
  given does not have either. The spec (4.2, 4.3): the file is scanned again, by the
  scanner of \<^verbatim>\<open>scanFile\<close>, on the text of the document.
\<close>

definition scanner_scanDocument :: "jsstring \<Rightarrow> jsstring \<Rightarrow> jsstring \<Rightarrow> TodoItem list" where
  "scanner_scanDocument fsPath relPath txt = scanFile fsPath relPath (Some txt)"

text \<open>
  \<^verbatim>\<open>scanDocument(scanner, treeProvider, document)\<close> of \<^verbatim>\<open>extension.ts\<close>, on the path and
  the text of the document, and the body of the deletion watcher, on the paths of the
  deleted files.
\<close>

definition scanDocument :: "TodoTreeProvider \<Rightarrow> jsstring \<Rightarrow> jsstring \<Rightarrow> jsstring \<Rightarrow> TodoTreeProvider" where
  "scanDocument p fsPath relPath txt =
     (let newTodos = scanner_scanDocument fsPath relPath txt
      in setTodosForFile fsPath newTodos p)"

definition deleteWatcher :: "jsstring list \<Rightarrow> TodoTreeProvider \<Rightarrow> TodoTreeProvider" where
  "deleteWatcher files p = fold (\<lambda>fsPath. setTodosForFile fsPath []) files p"

section \<open>Properties of the fuzzy search\<close>

lemma fuzzyLoop_subseq:
  "strIndex \<le> length str \<Longrightarrow> patternIndex \<le> length pattern \<Longrightarrow>
   fuzzyLoop str pattern strIndex patternIndex = length pattern \<longleftrightarrow>
   subseq (drop patternIndex pattern) (drop strIndex str)"
proof (induction str pattern strIndex patternIndex rule: fuzzyLoop.induct)
  case (1 str pattern strIndex patternIndex)
  show ?case
  proof (cases "strIndex < length str \<and> patternIndex < length pattern")
    case True
    then have ds: "drop strIndex str = str ! strIndex # drop (Suc strIndex) str"
      and dp: "drop patternIndex pattern = pattern ! patternIndex # drop (Suc patternIndex) pattern"
      by (simp_all add: Cons_nth_drop_Suc)
    let ?j = "if str ! strIndex = pattern ! patternIndex then Suc patternIndex else patternIndex"
    have step: "fuzzyLoop str pattern strIndex patternIndex = fuzzyLoop str pattern (Suc strIndex) ?j"
      using True by (subst fuzzyLoop.simps) simp
    have ih: "fuzzyLoop str pattern (Suc strIndex) ?j = length pattern \<longleftrightarrow>
              subseq (drop ?j pattern) (drop (Suc strIndex) str)"
      using True by (intro "1.IH") auto
    show ?thesis
    proof (cases "str ! strIndex = pattern ! patternIndex")
      case True
      with step ih show ?thesis by (simp add: ds dp)
    next
      case False
      with step ih show ?thesis by (simp add: ds dp)
    qed
  next
    case False
    then have stop: "fuzzyLoop str pattern strIndex patternIndex = patternIndex"
      by (subst fuzzyLoop.simps) auto
    from False "1.prems" consider "strIndex = length str" | "patternIndex = length pattern"
      by fastforce
    then show ?thesis
    proof cases
      case 1
      with "1.prems" show ?thesis unfolding stop by (auto dest: list_emb_length)
    next
      case 2
      then show ?thesis unfolding stop by simp
    qed
  qed
qed


text \<open>
  C2. \<^verbatim>\<open>fuzzyMatch(s, p)\<close> is true exactly when the lower-cased \<open>p\<close> is a subsequence of the
  lower-cased \<open>s\<close>, that is, when its characters are those of the lower-cased \<open>s\<close> at some
  set of positions, in order; so the answer depends on the two strings only through their
  lower-cased forms, and the empty pattern (whose lower-cased form is empty) matches
  every string.
\<close>

theorem fuzzyMatch_subsequence:
  "(fuzzyMatch toLowerCase s p \<longleftrightarrow> subseq (toLowerCase p) (toLowerCase s)) \<and>
   (fuzzyMatch toLowerCase s p \<longleftrightarrow> (\<exists>N. toLowerCase p = nths (toLowerCase s) N)) \<and>
   (\<forall>s' p'. toLowerCase s' = toLowerCase s \<and> toLowerCase p' = toLowerCase p \<longrightarrow>
      fuzzyMatch toLowerCase s' p' = fuzzyMatch toLowerCase s p) \<and>
   (toLowerCase [] = [] \<longrightarrow> fuzzyMatch toLowerCase s [])"
proof -
  have sub: "fuzzyMatch lc a b \<longleftrightarrow> subseq (lc b) (lc a)" for lc a b
    using fuzzyLoop_subseq [of 0 "lc a" 0 "lc b"] by (simp add: fuzzyMatch_def Let_def)
  show ?thesis by (simp add: sub subseq_conv_nths)
qed

theorem fuzzyMatch_subsequence_witness:
  "fuzzyMatch asciiLower (js ''authentication.ts'') (js ''auth'') \<and>
   fuzzyMatch asciiLower (js ''Authentication.ts'') (js ''aUTH'') \<and>
   \<not> fuzzyMatch asciiLower (js ''foo.ts'') (js ''xyz'') \<and>
   fuzzyMatch asciiLower (js ''foo.ts'') []"
proof -
  have a: "subseq (asciiLower (js ''auth'')) (asciiLower (js ''authentication.ts''))"
    by (simp add: asciiLower_def js_def)
  have b: "asciiLower (js ''Authentication.ts'') = asciiLower (js ''authentication.ts'')"
    "asciiLower (js ''aUTH'') = asciiLower (js ''auth'')"
    by (simp_all add: asciiLower_def js_def)
  have c: "\<not> subseq (asciiLower (js ''xyz'')) (asciiLower (js ''foo.ts''))"
    by (simp add: asciiLower_def js_def)
  have d: "asciiLower [] = []" by (simp add: asciiLower_def)
  from fuzzyMatch_subsequence [of asciiLower "js ''authentication.ts''" "js ''auth''"] a
  have 1: "fuzzyMatch asciiLower (js ''authentication.ts'') (js ''auth'')" by blast
  from fuzzyMatch_subsequence [of asciiLower "js ''authentication.ts''" "js ''auth''"] b 1
  have 2: "fuzzyMatch asciiLower (js ''Authentication.ts'') (js ''aUTH'')" by blast
  from fuzzyMatch_subsequence [of asciiLower "js ''foo.ts''" "js ''xyz''"] c
  have 3: "\<not> fuzzyMatch asciiLower (js ''foo.ts'') (js ''xyz'')" by blast
  from fuzzyMatch_subsequence [of asciiLower "js ''foo.ts''" "[]"] d
  have 4: "fuzzyMatch asciiLower (js ''foo.ts'') []" by blast
  from 1 2 3 4 show ?thesis by blast
qed

section \<open>Properties of the view state and of the filter\<close>

lemma startsWith_at: "startsWith (js ''@'' @ l) (js ''@'')"
  by (simp add: startsWith_def js_def)

text \<open>
  C9. \<^verbatim>\<open>toggleViewMode\<close> takes grouped to byTag, byTag to flat and flat to grouped, returns
  the display name of the new mode and changes nothing else of the provider; three calls
  in a row give the provider back as it was.
\<close>

theorem toggleViewMode_cycle:
  "viewMode (snd (toggleViewMode p)) =
     (case viewMode p of grouped \<Rightarrow> byTag | byTag \<Rightarrow> flat | flat \<Rightarrow> grouped) \<and>
   fst (toggleViewMode p) = VIEW_MODE_LABELS (viewMode (snd (toggleViewMode p))) \<and>
   todos (snd (toggleViewMode p)) = todos p \<and>
   filterPattern (snd (toggleViewMode p)) = filterPattern p \<and>
   snd (toggleViewMode (snd (toggleViewMode (snd (toggleViewMode p))))) = p"
  by (cases "viewMode p") (simp_all add: toggleViewMode_def Let_def)

theorem toggleViewMode_cycle_witness:
  "viewMode (snd (toggleViewMode \<lparr>todos = [], viewMode = flat, filterPattern = js ''@x''\<rparr>)) = grouped \<and>
   fst (toggleViewMode \<lparr>todos = [], viewMode = flat, filterPattern = js ''@x''\<rparr>) =
     js ''Grouped by Tag & File'' \<and>
   snd (toggleViewMode (snd (toggleViewMode (snd (toggleViewMode
     \<lparr>todos = [], viewMode = flat, filterPattern = js ''@x''\<rparr>))))) =
     \<lparr>todos = [], viewMode = flat, filterPattern = js ''@x''\<rparr>"
  using toggleViewMode_cycle [of "\<lparr>todos = [], viewMode = flat, filterPattern = js ''@x''\<rparr>"]
  by (simp add: VIEW_MODE_LABELS_def)

text \<open>
  C6. With the empty filter pattern \<^verbatim>\<open>getFilteredTodos\<close> returns the list of the provider
  itself: the same records in the same order. So the records of a scan, stored with
  \<^verbatim>\<open>setTodos\<close> and filtered with the empty pattern, come back as scanned.
\<close>

theorem getFilteredTodos_empty_pattern:
  "(filterPattern p = [] \<longrightarrow> getFilteredTodos toLowerCase p = todos p) \<and>
   getFilteredTodos toLowerCase (setFilter [] (setTodos (scanFile fsPath relPath content) p)) =
     scanFile fsPath relPath content"
  by (simp add: getFilteredTodos_def setFilter_def setTodos_def)

theorem getFilteredTodos_empty_pattern_witness:
  "filterPattern \<lparr>todos = [\<lparr>label = js ''x'', text' = js ''fix a'', filePath = js ''/w/a.ts'',
                               relativePath = js ''a.ts'', line = 0, column = 3\<rparr>],
                    viewMode = grouped, filterPattern = []\<rparr> = [] \<and>
   getFilteredTodos asciiLower
     \<lparr>todos = [\<lparr>label = js ''x'', text' = js ''fix a'', filePath = js ''/w/a.ts'',
                relativePath = js ''a.ts'', line = 0, column = 3\<rparr>],
      viewMode = grouped, filterPattern = []\<rparr> =
     [\<lparr>label = js ''x'', text' = js ''fix a'', filePath = js ''/w/a.ts'',
       relativePath = js ''a.ts'', line = 0, column = 3\<rparr>]"
  using getFilteredTodos_empty_pattern
    [of "\<lparr>todos = [\<lparr>label = js ''x'', text' = js ''fix a'', filePath = js ''/w/a.ts'',
                      relativePath = js ''a.ts'', line = 0, column = 3\<rparr>],
           viewMode = grouped, filterPattern = []\<rparr>" asciiLower]
  by simp

text \<open>
  C3. With a filter pattern \<open>@l\<close> \<^verbatim>\<open>getFilteredTodos\<close> returns exactly the records whose
  label equals \<open>l\<close>, in their order; the labels are compared as they are, and the fuzzy
  match (hence \<open>toLowerCase\<close>) plays no part. So \<open>@bug\<close> keeps a record labelled \<open>bug\<close> and
  drops one labelled \<open>bug-123\<close> or \<open>Bug\<close>.
\<close>

theorem getFilteredTodos_exact_label:
  "filterPattern p = js ''@'' @ l \<Longrightarrow>
     getFilteredTodos toLowerCase p = filter (\<lambda>todo. label todo = l) (todos p)"
  by (simp add: getFilteredTodos_def startsWith_at slice1_def Let_def) (simp add: js_def)

theorem getFilteredTodos_exact_label_witness:
  "getFilteredTodos asciiLower
     \<lparr>todos = [\<lparr>label = js ''bug'', text' = js ''one'', filePath = js ''/w/a.ts'',
                relativePath = js ''a.ts'', line = 0, column = 3\<rparr>,
               \<lparr>label = js ''bug-123'', text' = js ''two'', filePath = js ''/w/a.ts'',
                relativePath = js ''a.ts'', line = 1, column = 3\<rparr>,
               \<lparr>label = js ''Bug'', text' = js ''three'', filePath = js ''/w/b.ts'',
                relativePath = js ''b.ts'', line = 2, column = 0\<rparr>],
      viewMode = grouped, filterPattern = js ''@bug''\<rparr> =
     [\<lparr>label = js ''bug'', text' = js ''one'', filePath = js ''/w/a.ts'',
       relativePath = js ''a.ts'', line = 0, column = 3\<rparr>]"
proof -
  have pat: "js ''@bug'' = js ''@'' @ js ''bug''" by (simp add: js_def)
  show ?thesis
    by (subst getFilteredTodos_exact_label [of _ "js ''bug''"]) (simp_all add: pat, simp add: js_def)
qed

section \<open>Properties of the scanner\<close>

lemma TODO_PATTERN_exec_beyond: "length ln < i \<Longrightarrow> TODO_PATTERN_exec ln i = None"
  by (simp add: TODO_PATTERN_exec.simps [of ln i])

lemma TODO_PATTERN_exec_hit:
  "TODO_PATTERN_at ln i = Some (g1, g2, e) \<Longrightarrow> TODO_PATTERN_exec ln i = Some (i, g1, g2, e)"
  using TODO_PATTERN_at_bounds [of ln i g1 g2 e]
  by (simp add: TODO_PATTERN_exec.simps [of ln i])

lemma TODO_PATTERN_exec_miss:
  "TODO_PATTERN_at ln i = None \<Longrightarrow> TODO_PATTERN_exec ln i = TODO_PATTERN_exec ln (Suc i)"
  by (simp add: TODO_PATTERN_exec.simps [of ln i] TODO_PATTERN_exec_beyond)

lemma TODO_PATTERN_exec_first:
  "i \<le> idx \<Longrightarrow> TODO_PATTERN_at ln idx = Some (g1, g2, e) \<Longrightarrow>
   (\<And>j. i \<le> j \<Longrightarrow> j < idx \<Longrightarrow> TODO_PATTERN_at ln j = None) \<Longrightarrow>
   TODO_PATTERN_exec ln i = Some (idx, g1, g2, e)"
proof (induction "idx - i" arbitrary: i)
  case 0
  then have "i = idx" by simp
  with "0.prems"(2) show ?case by (simp add: TODO_PATTERN_exec_hit)
next
  case (Suc n)
  then have lt: "i < idx" by simp
  with Suc.prems(3) [of i] have none: "TODO_PATTERN_at ln i = None" by simp
  have "TODO_PATTERN_exec ln (Suc i) = Some (idx, g1, g2, e)"
  proof (rule Suc.hyps(1))
    show "n = idx - Suc i" using Suc.hyps(2) by simp
    show "Suc i \<le> idx" using lt by simp
    show "TODO_PATTERN_at ln idx = Some (g1, g2, e)" by (rule Suc.prems(2))
    show "TODO_PATTERN_at ln j = None" if "Suc i \<le> j" "j < idx" for j
      using that Suc.prems(3) [of j] by simp
  qed
  with none show ?case by (simp add: TODO_PATTERN_exec_miss)
qed

lemma TODO_PATTERN_exec_None_iff:
  "TODO_PATTERN_exec ln i = None \<longleftrightarrow> (\<forall>j\<ge>i. TODO_PATTERN_at ln j = None)"
proof
  assume "TODO_PATTERN_exec ln i = None"
  then show "\<forall>j\<ge>i. TODO_PATTERN_at ln j = None"
    by (blast intro: TODO_PATTERN_exec_None)
next
  assume a: "\<forall>j\<ge>i. TODO_PATTERN_at ln j = None"
  show "TODO_PATTERN_exec ln i = None"
  proof (cases "TODO_PATTERN_exec ln i")
    case None
    then show ?thesis .
  next
    case (Some m)
    obtain idx g1 g2 e where "m = (idx, g1, g2, e)" by (cases m) auto
    with Some TODO_PATTERN_exec_Some [of ln i idx g1 g2 e] a show ?thesis by auto
  qed
qed

lemma lineMatches_None: "TODO_PATTERN_exec ln i = None \<Longrightarrow> lineMatches ln i = []"
  by (simp add: lineMatches.simps [of ln i])

lemma lineMatches_Some:
  "TODO_PATTERN_exec ln i = Some (idx, g1, g2, e) \<Longrightarrow>
     lineMatches ln i = (idx, g1, g2) # lineMatches ln e"
  by (simp add: lineMatches.simps [of ln i])



lemma TODO_PATTERN_at_beyond: "length ln \<le> j \<Longrightarrow> TODO_PATTERN_at ln j = None"
  by (simp add: TODO_PATTERN_at_def js_def)








lemmas js_eval = js_def isWhiteSpace_def isLineTerminator_def trim_def TODO_PATTERN_at_def Let_def



lemma dropWhile_all: "\<forall>c\<in>set xs. P c \<Longrightarrow> dropWhile P xs = []"
  by (induction xs) auto

text \<open>
  C7, as amended. When the first occurrence of \<^verbatim>\<open>TODO(\<close>, label, \<^verbatim>\<open>):\<close> in a line has a
  label of one or more white space characters, the matcher gives a triple for it and
  the record of the scan keeps the empty label, at the column of the \<open>T\<close>. A label
  without any character does not match the pattern: at \<^verbatim>\<open>TODO():\<close> there is no match.
\<close>

theorem whitespace_label_kept:
  assumes ne: "ws \<noteq> []" and ws: "\<forall>c\<in>set ws. isWhiteSpace c"
    and first: "\<forall>j<length pre. TODO_PATTERN_at (pre @ js ''TODO('' @ ws @ js ''):'' @ rest) j = None"
  shows "(\<exists>txt more. matcher (pre @ js ''TODO('' @ ws @ js ''):'' @ rest) = ([], txt, length pre) # more) \<and>
         (\<exists>r rs. scanLine fsPath relPath i (pre @ js ''TODO('' @ ws @ js ''):'' @ rest) = r # rs \<and>
                  label r = [] \<and> column r = length pre \<and> line r = i \<and> filePath r = fsPath) \<and>
         TODO_PATTERN_at (pre @ js ''TODO():'' @ rest) (length pre) = None"
proof -
  let ?ln = "pre @ js ''TODO('' @ ws @ js ''):'' @ rest"
  have n41: "41 \<notin> set ws" using ws by (auto simp: isWhiteSpace_def isLineTerminator_def)
  have d: "drop (length pre) ?ln = js ''TODO('' @ ws @ js ''):'' @ rest" by simp
  from TODO_PATTERN_at_intro [OF d ne n41] obtain g2 e
    where at: "TODO_PATTERN_at ?ln (length pre) = Some (ws, g2, e)" by blast
  have "TODO_PATTERN_exec ?ln 0 = Some (length pre, ws, g2, e)"
    using TODO_PATTERN_exec_first [of 0 "length pre" ?ln ws g2 e] at first by blast
  then have lm: "lineMatches ?ln 0 = (length pre, ws, g2) # lineMatches ?ln e"
    by (rule lineMatches_Some)
  have dw: "dropWhile isWhiteSpace ws = []" using ws by (rule dropWhile_all)
  have tr: "trim ws = []" unfolding trim_def dw by simp
  have m: "matcher ?ln = ([], trim g2, length pre) #
             map (\<lambda>(idx, g1, g2). (trim g1, trim g2, idx)) (lineMatches ?ln e)"
    by (simp add: matcher_def lm tr)
  have none: "TODO_PATTERN_at (pre @ js ''TODO():'' @ rest) (length pre) = None"
    by (simp add: TODO_PATTERN_at_def js_def)
  from m none show ?thesis by (simp add: scanLine_def)
qed

theorem whitespace_label_kept_witness:
  "matcher (js ''// TODO( ): text'') = ([], js ''text'', 3) # [] \<and>
   (\<exists>r rs. scanLine (js ''/w/a.ts'') (js ''a.ts'') 7 (js ''// TODO( ): text'') = r # rs \<and>
            label r = [] \<and> column r = 3 \<and> line r = 7 \<and> filePath r = js ''/w/a.ts'')"
proof -
  have ln: "js ''// TODO( ): text'' = js ''// '' @ js ''TODO('' @ js '' '' @ js ''):'' @ js '' text''"
    by (simp add: js_def)
  have ne: "js '' '' \<noteq> []" and ws: "\<forall>c\<in>set (js '' ''). isWhiteSpace c"
    by (simp_all add: js_def isWhiteSpace_def)
  have first: "\<forall>j<length (js ''// '').
      TODO_PATTERN_at (js ''// '' @ js ''TODO('' @ js '' '' @ js ''):'' @ js '' text'') j = None"
  proof (intro allI impI)
    fix j :: nat
    assume "j < length (js ''// '')"
    then have "j = 0 \<or> j = 1 \<or> j = 2" by (simp add: js_def) arith
    then show "TODO_PATTERN_at (js ''// '' @ js ''TODO('' @ js '' '' @ js ''):'' @ js '' text'') j = None"
      by (auto simp: js_eval)
  qed
  from whitespace_label_kept [OF ne ws first, of "js ''/w/a.ts''" "js ''a.ts''" 7]
  have sl: "\<exists>r rs. scanLine (js ''/w/a.ts'') (js ''a.ts'') 7 (js ''// TODO( ): text'') = r # rs \<and>
            label r = [] \<and> column r = 3 \<and> line r = 7 \<and> filePath r = js ''/w/a.ts''"
    unfolding ln by (simp add: eval_nat_numeral)
  have a: "TODO_PATTERN_at (js ''// TODO( ): text'') 3 = Some (js '' '', js ''text'', 16)"
    by (simp add: js_eval)
  have pre: "\<And>j. 0 \<le> j \<Longrightarrow> j < 3 \<Longrightarrow> TODO_PATTERN_at (js ''// TODO( ): text'') j = None"
    using first unfolding ln by simp
  have ex: "TODO_PATTERN_exec (js ''// TODO( ): text'') 0 = Some (3, js '' '', js ''text'', 16)"
    by (rule TODO_PATTERN_exec_first [OF _ a pre]) simp_all
  have "\<forall>j\<ge>16. TODO_PATTERN_at (js ''// TODO( ): text'') j = None"
    by (simp add: TODO_PATTERN_at_beyond)
  then have b: "TODO_PATTERN_exec (js ''// TODO( ): text'') 16 = None"
    by (simp only: TODO_PATTERN_exec_None_iff)
  have m: "matcher (js ''// TODO( ): text'') = [([], js ''text'', 3)]"
    unfolding matcher_def lineMatches_Some [OF ex] lineMatches_None [OF b]
    by (simp add: js_def trim_def isWhiteSpace_def isLineTerminator_def)
  from m sl show ?thesis by simp
qed

text \<open>
  The line \<^verbatim>\<open>TODO(): text\<close>, with the empty label, gives no triple and no record.
\<close>

theorem whitespace_label_kept_counterexample:
  "matcher (js ''TODO(): text'') = [] \<and>
   scanLine (js ''/w/a.ts'') (js ''a.ts'') 0 (js ''TODO(): text'') = []"
proof -
  have "TODO_PATTERN_at (js ''TODO(): text'') j = None" for j
  proof (cases "j = 0")
    case True
    then show ?thesis by (simp add: js_eval)
  next
    case False
    then have "take 5 (drop j (js ''TODO(): text'')) \<noteq> js ''TODO(''"
      by (cases j) (simp_all add: js_def drop_Cons' take_Cons')
    then show ?thesis by (simp add: TODO_PATTERN_at_def)
  qed
  then have "TODO_PATTERN_exec (js ''TODO(): text'') 0 = None"
    by (simp add: TODO_PATTERN_exec_None_iff)
  then show ?thesis by (simp add: scanLine_def matcher_def lineMatches_None)
qed

section \<open>Properties of sorting and grouping\<close>

lemma set_insertSorted: "set (insertSorted c x ys) = insert x (set ys)"
  by (induction ys) auto

lemma distinct_insertSorted: "distinct (insertSorted c x ys) \<longleftrightarrow> x \<notin> set ys \<and> distinct ys"
  by (induction ys) (auto simp: set_insertSorted)

lemma length_insertSorted: "length (insertSorted c x ys) = Suc (length ys)"
  by (induction ys) auto

lemma set_arraySort: "set (arraySort c xs) = set xs"
  by (induction xs) (auto simp: arraySort_def set_insertSorted)

lemma distinct_arraySort: "distinct (arraySort c xs) = distinct xs"
proof (induction xs)
  case Nil
  show ?case by (simp add: arraySort_def)
next
  case (Cons x xs)
  have "arraySort c (x # xs) = insertSorted c x (arraySort c xs)" by (simp add: arraySort_def)
  then show ?case by (simp add: distinct_insertSorted set_arraySort Cons.IH)
qed

lemma length_arraySort: "length (arraySort c xs) = length xs"
  by (induction xs) (auto simp: arraySort_def length_insertSorted)

lemma sorted_insertSorted:
  assumes total: "\<forall>a b. c a b \<le> 0 \<or> c b a \<le> 0"
    and trans: "\<forall>a b d. c a b \<le> 0 \<and> c b d \<le> 0 \<longrightarrow> c a d \<le> 0"
  shows "sorted_wrt (\<lambda>a b. c a b \<le> 0) ys \<Longrightarrow> sorted_wrt (\<lambda>a b. c a b \<le> 0) (insertSorted c x ys)"
proof (induction ys)
  case Nil
  then show ?case by simp
next
  case (Cons y ys)
  from Cons.prems have sy: "sorted_wrt (\<lambda>a b. c a b \<le> 0) ys"
    and hy: "\<And>z. z \<in> set ys \<Longrightarrow> c y z \<le> 0" by simp_all
  show ?case
  proof (cases "c x y \<le> 0")
    case True
    have "c x z \<le> 0" if "z \<in> set ys" for z
      using trans True hy [OF that] by blast
    with True Cons.prems show ?thesis by simp
  next
    case False
    with total have yx: "c y x \<le> 0" by blast
    have "c y z \<le> 0" if "z \<in> set (insertSorted c x ys)" for z
      using that yx hy by (auto simp: set_insertSorted)
    with False Cons.IH [OF sy] show ?thesis by simp
  qed
qed

lemma sorted_arraySort:
  assumes total: "\<forall>a b. c a b \<le> 0 \<or> c b a \<le> 0"
    and trans: "\<forall>a b d. c a b \<le> 0 \<and> c b d \<le> 0 \<longrightarrow> c a d \<le> 0"
  shows "sorted_wrt (\<lambda>a b. c a b \<le> 0) (arraySort c xs)"
  by (induction xs) (simp_all add: arraySort_def sorted_insertSorted [OF total trans])

lemma mapE_Inr: "(\<And>x. x \<in> set xs \<Longrightarrow> f x = Inr (g x)) \<Longrightarrow> mapE f xs = Inr (map g xs)"
  by (induction xs) simp_all

lemma keys_groupInto: "fst ` set (groupInto key t m) = insert (key t) (fst ` set m)"
  by (simp add: groupInto_def Let_def dom_update)

lemma keys_fold_groupInto:
  "fst ` set (fold (groupInto key) ts m) = fst ` set m \<union> key ` set ts"
  by (induction ts arbitrary: m) (auto simp: keys_groupInto)

lemma distinct_fold_groupInto:
  "distinct (map fst m) \<Longrightarrow> distinct (map fst (fold (groupInto key) ts m))"
  by (induction ts arbitrary: m) (simp_all add: groupInto_def Let_def distinct_update)

lemma map_of_groupInto:
  "map_of (groupInto key t m) k =
     (if k = key t then Some ((case map_of m k of None \<Rightarrow> [] | Some g \<Rightarrow> g) @ [t]) else map_of m k)"
  by (simp add: groupInto_def Let_def update_conv')


lemma in_keys_iff: "k \<in> fst ` set m \<longleftrightarrow> map_of m k \<noteq> None"
  by (simp add: map_of_eq_None_iff)

lemma map_of_fold_groupInto:
  "map_of (fold (groupInto key) ts m) k =
     (if k \<in> key ` set ts \<or> k \<in> fst ` set m
      then Some ((case map_of m k of None \<Rightarrow> [] | Some g \<Rightarrow> g) @ filter (\<lambda>t. key t = k) ts)
      else None)"
proof (induction ts arbitrary: m)
  case Nil
  show ?case by (cases "map_of m k") (simp_all add: in_keys_iff del: map_of_eq_None_iff)
next
  case (Cons t ts)
  show ?case
    unfolding fold_Cons comp_def Cons.IH keys_groupInto map_of_groupInto
    by (cases "map_of m k") (auto simp: in_keys_iff simp del: map_of_eq_None_iff)
qed

lemma map_of_groups:
  "k \<in> key ` set ts \<Longrightarrow> map_of (fold (groupInto key) ts []) k = Some (filter (\<lambda>t. key t = k) ts)"
  by (simp add: map_of_fold_groupInto)

lemma length_filter_disjoint:
  "(\<And>x. x \<in> set xs \<Longrightarrow> \<not> (P x \<and> Q x)) \<Longrightarrow>
     length (filter P xs) + length (filter Q xs) = length (filter (\<lambda>x. P x \<or> Q x) xs)"
  by (induction xs) auto

lemma sum_group_sizes:
  "distinct ls \<Longrightarrow>
     sum_list (map (\<lambda>l. length (filter (\<lambda>t. key t = l) ts)) ls) =
     length (filter (\<lambda>t. key t \<in> set ls) ts)"
proof (induction ls)
  case Nil
  then show ?case by simp
next
  case (Cons l ls)
  then have "l \<notin> set ls" and d: "distinct ls" by simp_all
  then have "length (filter (\<lambda>t. key t = l) ts) + length (filter (\<lambda>t. key t \<in> set ls) ts) =
             length (filter (\<lambda>t. key t = l \<or> key t \<in> set ls) ts)"
    by (intro length_filter_disjoint) auto
  with Cons.IH [OF d] show ?case by (simp add: eq_commute [of l])
qed

section \<open>Properties of the tree\<close>

lemma fuzzyMatch_subseq_iff:
  "fuzzyMatch lc a b \<longleftrightarrow> subseq (lc b) (lc a)"
  using fuzzyLoop_subseq [of 0 "lc a" 0 "lc b"] by (simp add: fuzzyMatch_def Let_def)

lemma codeUnitCompare_total: "\<forall>a b. codeUnitCompare a b \<le> 0 \<or> codeUnitCompare b a \<le> 0"
  by (auto simp: codeUnitCompare_def)

lemma codeUnitCompare_trans:
  "\<forall>a b c. codeUnitCompare a b \<le> 0 \<and> codeUnitCompare b c \<le> 0 \<longrightarrow> codeUnitCompare a c \<le> 0"
  by (auto simp: codeUnitCompare_def split: if_splits)

text \<open>
  The label nodes of \<^verbatim>\<open>getLabelGroups\<close>: the keys of the map, sorted, each with the
  number of records of its label. The lookup in the map never fails.
\<close>

lemma getLabelGroups_Inr:
  "getLabelGroups c ts =
     Inr (map (\<lambda>l. \<lparr>label' = l @ js '' ('' @
                         numberToString (length (filter (\<lambda>t. label t = l) ts)) @ js '')'',
                     collapsibleState = Expanded, nodeType = NodeLabel,
                     todoItem = None, todoLabel = Some l, fileName = None\<rparr>)
              (arraySort c (map fst (fold (groupInto label) ts []))))"
  unfolding getLabelGroups_def Let_def
proof (rule mapE_Inr)
  fix l
  assume "l \<in> set (arraySort c (map fst (fold (groupInto label) ts [])))"
  then have "l \<in> label ` set ts" by (simp add: set_arraySort keys_fold_groupInto)
  then have "map_of (fold (groupInto label) ts []) l = Some (filter (\<lambda>t. label t = l) ts)"
    by (rule map_of_groups)
  then show "(case map_of (fold (groupInto label) ts []) l of
               None \<Rightarrow> Inl TypeError
             | Some g \<Rightarrow>
                 Inr \<lparr>label' = l @ js '' ('' @ numberToString (length g) @ js '')'',
                      collapsibleState = Expanded, nodeType = NodeLabel,
                      todoItem = None, todoLabel = Some l, fileName = None\<rparr>) =
             Inr \<lparr>label' = l @ js '' ('' @
                       numberToString (length (filter (\<lambda>t. label t = l) ts)) @ js '')'',
                  collapsibleState = Expanded, nodeType = NodeLabel,
                  todoItem = None, todoLabel = Some l, fileName = None\<rparr>"
    by simp
qed

lemma getFileGroups_Inr:
  "getFileGroups c ts lbl =
     Inr (map (\<lambda>f. \<lparr>label' = f @ js '' ('' @
                         numberToString (length (filter (\<lambda>t. relativePath t = f)
                                                   (filter (\<lambda>t. label t = lbl) ts))) @ js '')'',
                     collapsibleState = Expanded, nodeType = NodeFile,
                     todoItem = None, todoLabel = Some lbl, fileName = Some f\<rparr>)
              (arraySort c (map fst (fold (groupInto relativePath) (filter (\<lambda>t. label t = lbl) ts) []))))"
  unfolding getFileGroups_def Let_def
proof (rule mapE_Inr)
  let ?lt = "filter (\<lambda>t. label t = lbl) ts"
  fix f
  assume "f \<in> set (arraySort c (map fst (fold (groupInto relativePath) ?lt [])))"
  then have "f \<in> relativePath ` set ?lt" by (simp add: set_arraySort keys_fold_groupInto)
  then have "map_of (fold (groupInto relativePath) ?lt []) f = Some (filter (\<lambda>t. relativePath t = f) ?lt)"
    by (rule map_of_groups)
  then show "(case map_of (fold (groupInto relativePath) ?lt []) f of
               None \<Rightarrow> Inl TypeError
             | Some g \<Rightarrow>
                 Inr \<lparr>label' = f @ js '' ('' @ numberToString (length g) @ js '')'',
                      collapsibleState = Expanded, nodeType = NodeFile,
                      todoItem = None, todoLabel = Some lbl, fileName = Some f\<rparr>) =
             Inr \<lparr>label' = f @ js '' ('' @
                       numberToString (length (filter (\<lambda>t. relativePath t = f) ?lt)) @ js '')'',
                  collapsibleState = Expanded, nodeType = NodeFile,
                  todoItem = None, todoLabel = Some lbl, fileName = Some f\<rparr>"
    by simp
qed

lemma label_keys:
  "distinct (arraySort c (map fst (fold (groupInto key) ts [])))"
  "set (arraySort c (map fst (fold (groupInto key) ts []))) = key ` set ts"
  by (simp_all add: distinct_arraySort distinct_fold_groupInto set_arraySort keys_fold_groupInto)

lemma getChildren_root:
  "viewMode p \<noteq> flat \<Longrightarrow>
     getChildren lc c p None = getLabelGroups c (getFilteredTodos lc p)"
  by (simp add: getChildren_def)


lemma length_filter_eq_distinct:
  "distinct ls \<Longrightarrow> x \<in> set ls \<Longrightarrow> length (filter (\<lambda>l. l = x) ls) = 1"
proof (induction ls)
  case Nil
  then show ?case by simp
next
  case (Cons l ls)
  show ?case
  proof (cases "l = x")
    case True
    with Cons.prems have "x \<notin> set ls" by simp
    then have "filter (\<lambda>l. l = x) ls = []" by (induction ls) auto
    with True show ?thesis by simp
  next
    case False
    with Cons show ?thesis by simp
  qed
qed

text \<open>
  C4. In grouped and in byTag mode the children of the root are one label node for
  each label of the filtered records: the labels of the nodes are distinct, they are
  exactly the labels that occur, they stand in the order of \<^verbatim>\<open>localeCompare\<close> (for a
  consistent comparator), and the display label of each node is its label followed by
  the number of filtered records with that label, in parentheses. For the records
  \<open>x\<close>/\<open>fix a\<close> and \<open>y\<close>/\<open>fix b\<close> of \<open>a.ts\<close> and \<open>x\<close>/\<open>fix c\<close> of \<open>b.ts\<close>, with a comparator
  that puts \<open>x\<close> before \<open>y\<close> and \<open>a.ts\<close> before \<open>b.ts\<close>, the root has the nodes \<open>x (2)\<close> and
  \<open>y (1)\<close>, and in grouped mode the children of \<open>x (2)\<close> are the file nodes \<open>a.ts (1)\<close> and
  \<open>b.ts (1)\<close>.
\<close>

theorem root_label_groups:
  fixes localeCompare :: "jsstring \<Rightarrow> jsstring \<Rightarrow> int"
  defines "ex \<equiv>
     [\<lparr>label = js ''x'', text' = js ''fix a'', filePath = js ''/w/a.ts'',
       relativePath = js ''a.ts'', line = 0, column = 3\<rparr>,
      \<lparr>label = js ''y'', text' = js ''fix b'', filePath = js ''/w/a.ts'',
       relativePath = js ''a.ts'', line = 1, column = 3\<rparr>,
      \<lparr>label = js ''x'', text' = js ''fix c'', filePath = js ''/w/b.ts'',
       relativePath = js ''b.ts'', line = 3, column = 3\<rparr>]"
  assumes total: "\<forall>a b. localeCompare a b \<le> 0 \<or> localeCompare b a \<le> 0"
    and trans: "\<forall>a b c. localeCompare a b \<le> 0 \<and> localeCompare b c \<le> 0 \<longrightarrow> localeCompare a c \<le> 0"
    and mode: "viewMode p = grouped \<or> viewMode p = byTag"
  shows
    "(\<exists>ls. getChildren toLowerCase localeCompare p None =
             Inr (map (\<lambda>l. \<lparr>label' = l @ js '' ('' @
                                  numberToString (length (filter (\<lambda>t. label t = l)
                                                     (getFilteredTodos toLowerCase p))) @ js '')'',
                              collapsibleState = Expanded, nodeType = NodeLabel,
                              todoItem = None, todoLabel = Some l, fileName = None\<rparr>) ls) \<and>
           distinct ls \<and> set ls = label ` set (getFilteredTodos toLowerCase p) \<and>
           sorted_wrt (\<lambda>a b. localeCompare a b \<le> 0) ls) \<and>
     (localeCompare (js ''x'') (js ''y'') \<le> 0 \<and> localeCompare (js ''a.ts'') (js ''b.ts'') \<le> 0 \<longrightarrow>
        getChildren toLowerCase localeCompare \<lparr>todos = ex, viewMode = viewMode p, filterPattern = []\<rparr> None =
          Inr [\<lparr>label' = js ''x (2)'', collapsibleState = Expanded, nodeType = NodeLabel,
                todoItem = None, todoLabel = Some (js ''x''), fileName = None\<rparr>,
               \<lparr>label' = js ''y (1)'', collapsibleState = Expanded, nodeType = NodeLabel,
                todoItem = None, todoLabel = Some (js ''y''), fileName = None\<rparr>] \<and>
        getChildren toLowerCase localeCompare \<lparr>todos = ex, viewMode = grouped, filterPattern = []\<rparr>
          (Some \<lparr>label' = js ''x (2)'', collapsibleState = Expanded, nodeType = NodeLabel,
                 todoItem = None, todoLabel = Some (js ''x''), fileName = None\<rparr>) =
          Inr [\<lparr>label' = js ''a.ts (1)'', collapsibleState = Expanded, nodeType = NodeFile,
                todoItem = None, todoLabel = Some (js ''x''), fileName = Some (js ''a.ts'')\<rparr>,
               \<lparr>label' = js ''b.ts (1)'', collapsibleState = Expanded, nodeType = NodeFile,
                todoItem = None, todoLabel = Some (js ''x''), fileName = Some (js ''b.ts'')\<rparr>])"
proof (intro conjI impI)
  from mode have nf: "viewMode p \<noteq> flat" by auto
  let ?ls = "arraySort localeCompare (map fst (fold (groupInto label) (getFilteredTodos toLowerCase p) []))"
  show "\<exists>ls. getChildren toLowerCase localeCompare p None =
             Inr (map (\<lambda>l. \<lparr>label' = l @ js '' ('' @
                                  numberToString (length (filter (\<lambda>t. label t = l)
                                                     (getFilteredTodos toLowerCase p))) @ js '')'',
                              collapsibleState = Expanded, nodeType = NodeLabel,
                              todoItem = None, todoLabel = Some l, fileName = None\<rparr>) ls) \<and>
           distinct ls \<and> set ls = label ` set (getFilteredTodos toLowerCase p) \<and>
           sorted_wrt (\<lambda>a b. localeCompare a b \<le> 0) ls"
  proof (intro exI [of _ ?ls] conjI)
    show "getChildren toLowerCase localeCompare p None =
            Inr (map (\<lambda>l. \<lparr>label' = l @ js '' ('' @
                                  numberToString (length (filter (\<lambda>t. label t = l)
                                                     (getFilteredTodos toLowerCase p))) @ js '')'',
                              collapsibleState = Expanded, nodeType = NodeLabel,
                              todoItem = None, todoLabel = Some l, fileName = None\<rparr>) ?ls)"
      unfolding getChildren_root [OF nf] by (rule getLabelGroups_Inr)
    show "distinct ?ls" by (rule label_keys)
    show "set ?ls = label ` set (getFilteredTodos toLowerCase p)" by (rule label_keys)
    show "sorted_wrt (\<lambda>a b. localeCompare a b \<le> 0) ?ls"
      by (rule sorted_arraySort [OF total trans])
  qed
next
  assume c: "localeCompare (js ''x'') (js ''y'') \<le> 0 \<and> localeCompare (js ''a.ts'') (js ''b.ts'') \<le> 0"
  from mode have nf: "viewMode \<lparr>todos = ex, viewMode = viewMode p, filterPattern = []\<rparr> \<noteq> flat"
    by auto
  have keys: "map fst (fold (groupInto label) ex []) = [js ''x'', js ''y'']"
    by (simp add: ex_def groupInto_def js_def)
  have srt: "arraySort localeCompare [js ''x'', js ''y''] = [js ''x'', js ''y'']"
    using c by (simp add: arraySort_def)
  show "getChildren toLowerCase localeCompare \<lparr>todos = ex, viewMode = viewMode p, filterPattern = []\<rparr> None =
          Inr [\<lparr>label' = js ''x (2)'', collapsibleState = Expanded, nodeType = NodeLabel,
                todoItem = None, todoLabel = Some (js ''x''), fileName = None\<rparr>,
               \<lparr>label' = js ''y (1)'', collapsibleState = Expanded, nodeType = NodeLabel,
                todoItem = None, todoLabel = Some (js ''y''), fileName = None\<rparr>]"
    unfolding getChildren_root [OF nf] getLabelGroups_Inr
    by (simp add: getFilteredTodos_def keys srt) (simp add: ex_def js_def numberToString.simps)
next
  assume c: "localeCompare (js ''x'') (js ''y'') \<le> 0 \<and> localeCompare (js ''a.ts'') (js ''b.ts'') \<le> 0"
  have flt: "filter (\<lambda>t. label t = js ''x'') ex =
     [\<lparr>label = js ''x'', text' = js ''fix a'', filePath = js ''/w/a.ts'',
       relativePath = js ''a.ts'', line = 0, column = 3\<rparr>,
      \<lparr>label = js ''x'', text' = js ''fix c'', filePath = js ''/w/b.ts'',
       relativePath = js ''b.ts'', line = 3, column = 3\<rparr>]"
    by (simp add: ex_def js_def)
  have keys: "map fst (fold (groupInto relativePath) (filter (\<lambda>t. label t = js ''x'') ex) []) =
      [js ''a.ts'', js ''b.ts'']"
    unfolding flt by (simp add: groupInto_def js_def)
  have srt: "arraySort localeCompare [js ''a.ts'', js ''b.ts''] = [js ''a.ts'', js ''b.ts'']"
    using c by (simp add: arraySort_def)
  have "getChildren toLowerCase localeCompare \<lparr>todos = ex, viewMode = grouped, filterPattern = []\<rparr>
          (Some \<lparr>label' = js ''x (2)'', collapsibleState = Expanded, nodeType = NodeLabel,
                 todoItem = None, todoLabel = Some (js ''x''), fileName = None\<rparr>) =
        getFileGroups localeCompare ex (js ''x'')"
    by (simp add: getChildren_def getFilteredTodos_def truthy_def js_def)
  also have "\<dots> =
          Inr [\<lparr>label' = js ''a.ts (1)'', collapsibleState = Expanded, nodeType = NodeFile,
                todoItem = None, todoLabel = Some (js ''x''), fileName = Some (js ''a.ts'')\<rparr>,
               \<lparr>label' = js ''b.ts (1)'', collapsibleState = Expanded, nodeType = NodeFile,
                todoItem = None, todoLabel = Some (js ''x''), fileName = Some (js ''b.ts'')\<rparr>]"
    unfolding getFileGroups_Inr unfolding keys unfolding srt flt
    by (simp add: js_def numberToString.simps)
  finally show "getChildren toLowerCase localeCompare \<lparr>todos = ex, viewMode = grouped, filterPattern = []\<rparr>
          (Some \<lparr>label' = js ''x (2)'', collapsibleState = Expanded, nodeType = NodeLabel,
                 todoItem = None, todoLabel = Some (js ''x''), fileName = None\<rparr>) =
          Inr [\<lparr>label' = js ''a.ts (1)'', collapsibleState = Expanded, nodeType = NodeFile,
                todoItem = None, todoLabel = Some (js ''x''), fileName = Some (js ''a.ts'')\<rparr>,
               \<lparr>label' = js ''b.ts (1)'', collapsibleState = Expanded, nodeType = NodeFile,
                todoItem = None, todoLabel = Some (js ''x''), fileName = Some (js ''b.ts'')\<rparr>]" .
qed


theorem root_label_groups_witness:
  "getChildren asciiLower codeUnitCompare
     \<lparr>todos = [\<lparr>label = js ''x'', text' = js ''fix a'', filePath = js ''/w/a.ts'',
                relativePath = js ''a.ts'', line = 0, column = 3\<rparr>,
               \<lparr>label = js ''y'', text' = js ''fix b'', filePath = js ''/w/a.ts'',
                relativePath = js ''a.ts'', line = 1, column = 3\<rparr>,
               \<lparr>label = js ''x'', text' = js ''fix c'', filePath = js ''/w/b.ts'',
                relativePath = js ''b.ts'', line = 3, column = 3\<rparr>],
      viewMode = byTag, filterPattern = []\<rparr> None =
     Inr [\<lparr>label' = js ''x (2)'', collapsibleState = Expanded, nodeType = NodeLabel,
           todoItem = None, todoLabel = Some (js ''x''), fileName = None\<rparr>,
          \<lparr>label' = js ''y (1)'', collapsibleState = Expanded, nodeType = NodeLabel,
           todoItem = None, todoLabel = Some (js ''y''), fileName = None\<rparr>] \<and>
   getChildren asciiLower codeUnitCompare
     \<lparr>todos = [\<lparr>label = js ''x'', text' = js ''fix a'', filePath = js ''/w/a.ts'',
                relativePath = js ''a.ts'', line = 0, column = 3\<rparr>,
               \<lparr>label = js ''y'', text' = js ''fix b'', filePath = js ''/w/a.ts'',
                relativePath = js ''a.ts'', line = 1, column = 3\<rparr>,
               \<lparr>label = js ''x'', text' = js ''fix c'', filePath = js ''/w/b.ts'',
                relativePath = js ''b.ts'', line = 3, column = 3\<rparr>],
      viewMode = grouped, filterPattern = []\<rparr>
     (Some \<lparr>label' = js ''x (2)'', collapsibleState = Expanded, nodeType = NodeLabel,
            todoItem = None, todoLabel = Some (js ''x''), fileName = None\<rparr>) =
     Inr [\<lparr>label' = js ''a.ts (1)'', collapsibleState = Expanded, nodeType = NodeFile,
           todoItem = None, todoLabel = Some (js ''x''), fileName = Some (js ''a.ts'')\<rparr>,
          \<lparr>label' = js ''b.ts (1)'', collapsibleState = Expanded, nodeType = NodeFile,
           todoItem = None, todoLabel = Some (js ''x''), fileName = Some (js ''b.ts'')\<rparr>]"
proof -
  have c: "codeUnitCompare (js ''x'') (js ''y'') \<le> 0 \<and>
           codeUnitCompare (js ''a.ts'') (js ''b.ts'') \<le> 0"
    by (simp add: codeUnitCompare_def js_def)
  have mode: "viewMode \<lparr>todos = [], viewMode = byTag, filterPattern = []\<rparr> = grouped \<or>
              viewMode \<lparr>todos = [], viewMode = byTag, filterPattern = []\<rparr> = byTag"
    by simp
  from root_label_groups [OF codeUnitCompare_total codeUnitCompare_trans mode, of asciiLower] c
  show ?thesis by simp
qed

text \<open>
  C10. In grouped and in byTag mode, for every filter pattern, the label nodes at the
  root partition the filtered records: the labels of the nodes are distinct, the label
  of every filtered record is the label of exactly one node, and the counts of the nodes
  add up to the number of filtered records.
\<close>

theorem root_label_groups_partition:
  assumes mode: "viewMode p = grouped \<or> viewMode p = byTag"
  shows "\<exists>ls. getChildren toLowerCase localeCompare p None =
           Inr (map (\<lambda>l. \<lparr>label' = l @ js '' ('' @
                                numberToString (length (filter (\<lambda>t. label t = l)
                                                   (getFilteredTodos toLowerCase p))) @ js '')'',
                            collapsibleState = Expanded, nodeType = NodeLabel,
                            todoItem = None, todoLabel = Some l, fileName = None\<rparr>) ls) \<and>
         distinct ls \<and>
         (\<forall>t\<in>set (getFilteredTodos toLowerCase p). length (filter (\<lambda>l. l = label t) ls) = 1) \<and>
         (\<forall>l\<in>set ls. \<exists>t\<in>set (getFilteredTodos toLowerCase p). label t = l) \<and>
         sum_list (map (\<lambda>l. length (filter (\<lambda>t. label t = l) (getFilteredTodos toLowerCase p))) ls) =
           length (getFilteredTodos toLowerCase p)"
proof -
  from mode have nf: "viewMode p \<noteq> flat" by auto
  let ?F = "getFilteredTodos toLowerCase p"
  let ?ls = "arraySort localeCompare (map fst (fold (groupInto label) ?F []))"
  have d: "distinct ?ls" and s: "set ?ls = label ` set ?F" by (rule label_keys)+
  have ch: "getChildren toLowerCase localeCompare p None =
           Inr (map (\<lambda>l. \<lparr>label' = l @ js '' ('' @
                                numberToString (length (filter (\<lambda>t. label t = l) ?F)) @ js '')'',
                            collapsibleState = Expanded, nodeType = NodeLabel,
                            todoItem = None, todoLabel = Some l, fileName = None\<rparr>) ?ls)"
    unfolding getChildren_root [OF nf] by (rule getLabelGroups_Inr)
  have one: "\<forall>t\<in>set ?F. length (filter (\<lambda>l. l = label t) ?ls) = 1"
  proof
    fix t
    assume "t \<in> set ?F"
    then have "label t \<in> set ?ls" unfolding s by simp
    with d show "length (filter (\<lambda>l. l = label t) ?ls) = 1"
      by (rule length_filter_eq_distinct)
  qed
  have onto: "\<forall>l\<in>set ?ls. \<exists>t\<in>set ?F. label t = l" using s by auto
  have "filter (\<lambda>t. label t \<in> set ?ls) ?F = ?F" unfolding s by (simp add: filter_id_conv)
  with sum_group_sizes [OF d, of label ?F]
  have sum: "sum_list (map (\<lambda>l. length (filter (\<lambda>t. label t = l) ?F)) ?ls) = length ?F" by simp
  from ch d one onto sum show ?thesis by blast
qed


theorem root_label_groups_partition_witness:
  "\<exists>ls. getChildren asciiLower codeUnitCompare
           \<lparr>todos = [\<lparr>label = js ''x'', text' = js ''fix a'', filePath = js ''/w/a.ts'',
                      relativePath = js ''a.ts'', line = 0, column = 3\<rparr>,
                     \<lparr>label = js ''y'', text' = js ''fix b'', filePath = js ''/w/a.ts'',
                      relativePath = js ''a.ts'', line = 1, column = 3\<rparr>,
                     \<lparr>label = js ''x'', text' = js ''fix c'', filePath = js ''/w/b.ts'',
                      relativePath = js ''b.ts'', line = 3, column = 3\<rparr>],
            viewMode = grouped, filterPattern = js ''fx''\<rparr> None =
         Inr (map (\<lambda>l. \<lparr>label' = l @ js '' ('' @
                              numberToString (length (filter (\<lambda>t. label t = l)
                                [\<lparr>label = js ''x'', text' = js ''fix a'', filePath = js ''/w/a.ts'',
                                  relativePath = js ''a.ts'', line = 0, column = 3\<rparr>,
                                 \<lparr>label = js ''y'', text' = js ''fix b'', filePath = js ''/w/a.ts'',
                                  relativePath = js ''a.ts'', line = 1, column = 3\<rparr>,
                                 \<lparr>label = js ''x'', text' = js ''fix c'', filePath = js ''/w/b.ts'',
                                  relativePath = js ''b.ts'', line = 3, column = 3\<rparr>])) @ js '')'',
                          collapsibleState = Expanded, nodeType = NodeLabel,
                          todoItem = None, todoLabel = Some l, fileName = None\<rparr>) ls) \<and>
       distinct ls \<and>
       sum_list (map (\<lambda>l. length (filter (\<lambda>t. label t = l)
                                [\<lparr>label = js ''x'', text' = js ''fix a'', filePath = js ''/w/a.ts'',
                                  relativePath = js ''a.ts'', line = 0, column = 3\<rparr>,
                                 \<lparr>label = js ''y'', text' = js ''fix b'', filePath = js ''/w/a.ts'',
                                  relativePath = js ''a.ts'', line = 1, column = 3\<rparr>,
                                 \<lparr>label = js ''x'', text' = js ''fix c'', filePath = js ''/w/b.ts'',
                                  relativePath = js ''b.ts'', line = 3, column = 3\<rparr>])) ls) = 3"
proof -
  let ?E = "[\<lparr>label = js ''x'', text' = js ''fix a'', filePath = js ''/w/a.ts'',
              relativePath = js ''a.ts'', line = 0, column = 3\<rparr>,
             \<lparr>label = js ''y'', text' = js ''fix b'', filePath = js ''/w/a.ts'',
              relativePath = js ''a.ts'', line = 1, column = 3\<rparr>,
             \<lparr>label = js ''x'', text' = js ''fix c'', filePath = js ''/w/b.ts'',
              relativePath = js ''b.ts'', line = 3, column = 3\<rparr>]"
  let ?P = "\<lparr>todos = ?E, viewMode = grouped, filterPattern = js ''fx''\<rparr>"
  have F: "getFilteredTodos asciiLower ?P = ?E"
    by (simp add: getFilteredTodos_def fuzzyMatch_subseq_iff createSearchableString_def
        asciiLower_def js_def startsWith_def Let_def)
  have mode: "viewMode ?P = grouped \<or> viewMode ?P = byTag" by simp
  from root_label_groups_partition [OF mode, of asciiLower codeUnitCompare]
  show ?thesis unfolding F by auto
qed











section \<open>Properties of the update of one file\<close>

lemma scanFile_filePath: "t \<in> set (scanFile fsPath relPath content) \<Longrightarrow> filePath t = fsPath"
  by (cases content) (auto simp: scanFile_def scanLine_def)

lemma filter_other_append:
  "(\<And>t. t \<in> set new \<Longrightarrow> key t = k) \<Longrightarrow>
     filter (\<lambda>t. key t \<noteq> k) (filter (\<lambda>t. key t \<noteq> k) old @ new) = filter (\<lambda>t. key t \<noteq> k) old"
  by (simp add: filter_empty_conv)

lemma filter_same_append:
  "(\<And>t. t \<in> set new \<Longrightarrow> key t = k) \<Longrightarrow>
     filter (\<lambda>t. key t = k) (filter (\<lambda>t. key t \<noteq> k) old @ new) = new"
  by (simp add: filter_empty_conv filter_id_conv)

text \<open>
  C5. Scanning one document again replaces exactly the records of its path: the records
  with another path stay as they were, in their order, and the records with the path of
  the document are those of the new scan. When the scan finds nothing, and when the file
  is deleted, the records of the path are removed and the others stay. The view mode and
  the filter are left alone.
\<close>

theorem scanDocument_replaces_file:
  "filter (\<lambda>t. filePath t \<noteq> fsPath) (todos (scanDocument p fsPath relPath txt)) =
     filter (\<lambda>t. filePath t \<noteq> fsPath) (todos p) \<and>
   filter (\<lambda>t. filePath t = fsPath) (todos (scanDocument p fsPath relPath txt)) =
     scanner_scanDocument fsPath relPath txt \<and>
   (scanner_scanDocument fsPath relPath txt = [] \<longrightarrow>
      todos (scanDocument p fsPath relPath txt) = filter (\<lambda>t. filePath t \<noteq> fsPath) (todos p)) \<and>
   todos (deleteWatcher [fsPath] p) = filter (\<lambda>t. filePath t \<noteq> fsPath) (todos p) \<and>
   viewMode (scanDocument p fsPath relPath txt) = viewMode p \<and>
   filterPattern (scanDocument p fsPath relPath txt) = filterPattern p \<and>
   viewMode (deleteWatcher [fsPath] p) = viewMode p \<and>
   filterPattern (deleteWatcher [fsPath] p) = filterPattern p"
proof -
  have own: "\<And>t. t \<in> set (scanner_scanDocument fsPath relPath txt) \<Longrightarrow> filePath t = fsPath"
    unfolding scanner_scanDocument_def by (rule scanFile_filePath)
  have t: "todos (scanDocument p fsPath relPath txt) =
      filter (\<lambda>t. filePath t \<noteq> fsPath) (todos p) @ scanner_scanDocument fsPath relPath txt"
    by (simp add: scanDocument_def setTodosForFile_def Let_def)
  have other: "filter (\<lambda>t. filePath t \<noteq> fsPath) (todos (scanDocument p fsPath relPath txt)) =
      filter (\<lambda>t. filePath t \<noteq> fsPath) (todos p)"
    unfolding t using own by (rule filter_other_append)
  have same: "filter (\<lambda>t. filePath t = fsPath) (todos (scanDocument p fsPath relPath txt)) =
      scanner_scanDocument fsPath relPath txt"
    unfolding t using own by (rule filter_same_append)
  have empty: "scanner_scanDocument fsPath relPath txt = [] \<longrightarrow>
      todos (scanDocument p fsPath relPath txt) = filter (\<lambda>t. filePath t \<noteq> fsPath) (todos p)"
    unfolding t by simp
  have rest: "todos (deleteWatcher [fsPath] p) = filter (\<lambda>t. filePath t \<noteq> fsPath) (todos p) \<and>
      viewMode (scanDocument p fsPath relPath txt) = viewMode p \<and>
      filterPattern (scanDocument p fsPath relPath txt) = filterPattern p \<and>
      viewMode (deleteWatcher [fsPath] p) = viewMode p \<and>
      filterPattern (deleteWatcher [fsPath] p) = filterPattern p"
    by (simp add: scanDocument_def deleteWatcher_def setTodosForFile_def Let_def)
  from other same empty rest show ?thesis by (intro conjI) blast+
qed

theorem scanDocument_replaces_file_witness:
  "scanner_scanDocument (js ''/w/a.ts'') (js ''a.ts'') (js ''// nothing left'') = [] \<and>
   todos (scanDocument
     \<lparr>todos = [\<lparr>label = js ''x'', text' = js ''fix a'', filePath = js ''/w/a.ts'',
                relativePath = js ''a.ts'', line = 0, column = 3\<rparr>,
               \<lparr>label = js ''x'', text' = js ''fix c'', filePath = js ''/w/b.ts'',
                relativePath = js ''b.ts'', line = 3, column = 3\<rparr>,
               \<lparr>label = js ''y'', text' = js ''fix b'', filePath = js ''/w/a.ts'',
                relativePath = js ''a.ts'', line = 1, column = 3\<rparr>],
      viewMode = grouped, filterPattern = []\<rparr>
     (js ''/w/a.ts'') (js ''a.ts'') (js ''// nothing left'')) =
     [\<lparr>label = js ''x'', text' = js ''fix c'', filePath = js ''/w/b.ts'',
       relativePath = js ''b.ts'', line = 3, column = 3\<rparr>]"
proof -
  have "\<forall>j\<ge>0. TODO_PATTERN_at (js ''// nothing left'') j = None"
  proof (intro allI impI)
    fix j :: nat
    have "take 5 (drop j (js ''// nothing left'')) \<noteq> js ''TODO(''"
      by (simp add: js_def drop_Cons' take_Cons')
    then show "TODO_PATTERN_at (js ''// nothing left'') j = None"
      by (simp add: TODO_PATTERN_at_def)
  qed
  then have "TODO_PATTERN_exec (js ''// nothing left'') 0 = None"
    unfolding TODO_PATTERN_exec_None_iff .
  then have m: "matcher (js ''// nothing left'') = []"
    by (simp add: matcher_def lineMatches_None)
  have sp: "split 10 (js ''// nothing left'') = [js ''// nothing left'']"
    by (simp add: js_def)
  have e: "scanner_scanDocument (js ''/w/a.ts'') (js ''a.ts'') (js ''// nothing left'') = []"
    by (simp add: scanner_scanDocument_def scanFile_def sp scanLine_def m)
  from scanDocument_replaces_file [of "js ''/w/a.ts''" _ "js ''a.ts''" "js ''// nothing left''"] e
  show ?thesis by (simp add: js_def)
qed

end
